theory Spec2Isabelle
  imports Complex_Main "HOL-Library.Sublist"
begin

section \<open>Python values and errors\<close>

text \<open>
  The exceptions the modelled functions can raise; \<open>CplexError\<close> is the exception with
  which the solving engine refuses a call. A function that can raise returns
  \<open>py_error + 'a\<close>, with \<open>Inl\<close> for the exception.
\<close>

datatype py_error = ValueError | IndexError | KeyError | OverflowError | CplexError

text \<open>
  \<open>str.split(sep)\<close> for a one-character separator: the fields between the separators,
  empty fields included; the result is never empty.
\<close>

fun split_sep :: "char \<Rightarrow> string \<Rightarrow> string list" where
  "split_sep c [] = [[]]"
| "split_sep c (x # xs) =
     (if x = c then [] # split_sep c xs
      else (case split_sep c xs of
              [] \<Rightarrow> [[x]]
            | w # ws \<Rightarrow> (x # w) # ws))"

text \<open>
  \<open>int(s)\<close> on a string whose characters are code points below 256. The white space
  stripped at both ends is tab, line feed, vertical tab, form feed, carriage return and
  space, and of the characters from 128 on the two that Python takes for white space,
  U+0085 and U+00A0. The separators 0x1C to 0x1F are not stripped. After the white space
  one sign is allowed, and at least one decimal digit must follow; anything else raises
  ValueError. (Underscores between digits never reach \<open>int\<close> here: the label is split
  at every underscore first. The bound that recent Python versions put on the number of
  digits is not modelled.)
\<close>

definition py_isspace :: "char \<Rightarrow> bool" where
  "py_isspace c = (of_char c \<in> {9, 10, 11, 12, 13, 32, 133, 160 :: nat})"

definition py_strip :: "string \<Rightarrow> string" where
  "py_strip s = rev (dropWhile py_isspace (rev (dropWhile py_isspace s)))"

definition is_digit :: "char \<Rightarrow> bool" where
  "is_digit c = (let k = (of_char c :: nat) in 48 \<le> k \<and> k \<le> 57)"

definition digit_val :: "char \<Rightarrow> int" where
  "digit_val c = int (of_char c) - 48"

definition digits_val :: "string \<Rightarrow> int" where
  "digits_val s = fold (\<lambda>c acc. 10 * acc + digit_val c) s 0"

definition py_digits :: "string \<Rightarrow> py_error + int" where
  "py_digits s = (if s \<noteq> [] \<and> list_all is_digit s then Inr (digits_val s) else Inl ValueError)"

definition py_int :: "string \<Rightarrow> py_error + int" where
  "py_int s =
     (case py_strip s of
        [] \<Rightarrow> Inl ValueError
      | c # cs \<Rightarrow>
          if c = CHR ''-'' then (case py_digits cs of Inl e \<Rightarrow> Inl e | Inr n \<Rightarrow> Inr (- n))
          else if c = CHR ''+'' then py_digits cs
          else py_digits (c # cs))"

section \<open>Route reconstruction (utility.py)\<close>

text \<open>
  \<open>i, j = map(int, label.split('_')[1:])\<close>: the fields after the first must be exactly
  two integers. Too few or too many fields, and a field that is not an integer, all raise
  ValueError.
\<close>

definition arc_indices :: "string \<Rightarrow> py_error + (int \<times> int)" where
  "arc_indices label =
     (case tl (split_sep CHR ''_'' label) of
        [a, b] \<Rightarrow>
          (case py_int a of
             Inl e \<Rightarrow> Inl e
           | Inr i \<Rightarrow> (case py_int b of Inl e \<Rightarrow> Inl e | Inr j \<Rightarrow> Inr (i, j)))
      | _ \<Rightarrow> Inl ValueError)"

text \<open>
  The state shared by the nested function \<open>find_route\<close> and its callers: the list
  \<open>routes\<close>, the set \<open>visited\<close> and the list \<open>current_route\<close>, which Python passes by
  reference, so that every \<open>append\<close> and \<open>pop\<close> is seen by the caller.
\<close>

type_synonym route_state = "string list list \<times> string set \<times> string list"

text \<open>
  \<open>find_route\<close> is the nested function; \<open>find_next\<close> is its \<open>for next_node in sequence\<close>
  loop, run on the part of the sequence still to be iterated. On reaching the end node
  \<open>find_route\<close> saves a copy of the route and returns at once, without the \<open>pop\<close> that
  ends the other path.
\<close>

function find_route :: "string list \<Rightarrow> int \<Rightarrow> string \<Rightarrow> route_state \<Rightarrow> py_error + route_state"
  and find_next :: "string list \<Rightarrow> int \<Rightarrow> int \<Rightarrow> string list \<Rightarrow> route_state \<Rightarrow> py_error + route_state"
where
  "find_route sequence end_node_idx current_node (routes, visited, current_route) =
     (case arc_indices current_node of
        Inl e \<Rightarrow> Inl e
      | Inr (i, j) \<Rightarrow>
          if j = end_node_idx
          then Inr (routes @ [current_route @ [current_node]], visited,
                    current_route @ [current_node])
          else (case find_next sequence end_node_idx j sequence
                       (routes, visited, current_route @ [current_node]) of
                  Inl e \<Rightarrow> Inl e
                | Inr (routes', visited', route') \<Rightarrow>
                    if route' = [] then Inl IndexError
                    else Inr (routes', visited', butlast route')))"
| "find_next sequence end_node_idx j [] st = Inr st"
| "find_next sequence end_node_idx j (next_node # rest) (routes, visited, current_route) =
     (if next_node \<notin> visited then
        (case arc_indices next_node of
           Inl e \<Rightarrow> Inl e
         | Inr (next_i, next_j) \<Rightarrow>
             if next_i = j then
               (case find_route sequence end_node_idx next_node
                       (routes, insert next_node visited, current_route) of
                  Inl e \<Rightarrow> Inl e
                | Inr (routes', visited', route') \<Rightarrow>
                    if next_node \<notin> visited' then Inl KeyError
                    else find_next sequence end_node_idx j rest
                           (routes', visited' - {next_node}, route'))
             else find_next sequence end_node_idx j rest (routes, visited, current_route))
      else find_next sequence end_node_idx j rest (routes, visited, current_route))"
  by pat_completeness auto

text \<open>
  The body of \<open>find_and_print_routes\<close>: the loop over the start nodes, each with a fresh
  \<open>current_route\<close>; the lists \<open>routes\<close> and \<open>visited\<close> are shared with \<open>find_route\<close>.
\<close>

fun find_starts :: "string list \<Rightarrow> int \<Rightarrow> string list \<Rightarrow> string list list \<times> string set
    \<Rightarrow> py_error + string list list \<times> string set" where
  "find_starts sequence end_node_idx [] st = Inr st"
| "find_starts sequence end_node_idx (start_node # rest) (routes, visited) =
     (if prefix ''x_0_'' start_node \<and> start_node \<notin> visited then
        (case find_route sequence end_node_idx start_node
                (routes, insert start_node visited, []) of
           Inl e \<Rightarrow> Inl e
         | Inr (routes', visited', route') \<Rightarrow>
             if start_node \<notin> visited' then Inl KeyError
             else find_starts sequence end_node_idx rest (routes', visited' - {start_node}))
      else find_starts sequence end_node_idx rest (routes, visited))"

text \<open>
  \<open>find_and_print_routes\<close> prints the number of routes and then every route; the model
  returns the list of routes it prints, in the order printed.
\<close>

definition find_and_print_routes :: "string list \<Rightarrow> int \<Rightarrow> py_error + string list list" where
  "find_and_print_routes sequence end_node_idx =
     (case find_starts sequence end_node_idx sequence ([], {}) of
        Inl e \<Rightarrow> Inl e
      | Inr (routes, visited) \<Rightarrow> Inr routes)"


section \<open>Floats\<close>

text \<open>
  A Python float given as input is modelled as a real number, and rounding is ignored. A
  float that the program computes is a \<open>real option\<close>: \<open>None\<close> stands for a result that
  is not a finite number (an infinity or NaN). That is what addition, multiplication and
  division give when the exact result is larger in magnitude than the largest float
  \<open>float_max\<close>, what a division by zero gives in numpy, and what every operation gives
  on an operand that is not finite. The operator \<open>**\<close> of Python raises OverflowError
  instead when the square of a finite number is too large.
\<close>

definition float_max :: real where
  "float_max = (2 - 1 / 2 ^ 52) * 2 ^ 1023"

definition finite_float :: "real \<Rightarrow> bool" where
  "finite_float x = (\<bar>x\<bar> \<le> float_max)"

definition fl :: "real \<Rightarrow> real option" where
  "fl x = (if finite_float x then Some x else None)"

definition fl_add :: "real option \<Rightarrow> real option \<Rightarrow> real option" where
  "fl_add a b =
     (case a of None \<Rightarrow> None | Some x \<Rightarrow> (case b of None \<Rightarrow> None | Some y \<Rightarrow> fl (x + y)))"

definition fl_sub :: "real option \<Rightarrow> real option \<Rightarrow> real option" where
  "fl_sub a b =
     (case a of None \<Rightarrow> None | Some x \<Rightarrow> (case b of None \<Rightarrow> None | Some y \<Rightarrow> fl (x - y)))"

definition fl_mul :: "real option \<Rightarrow> real option \<Rightarrow> real option" where
  "fl_mul a b =
     (case a of None \<Rightarrow> None | Some x \<Rightarrow> (case b of None \<Rightarrow> None | Some y \<Rightarrow> fl (x * y)))"

text \<open>Division of a numpy float by a Python float: no exception, also for the divisor 0.\<close>

definition fl_div :: "real option \<Rightarrow> real \<Rightarrow> real option" where
  "fl_div a v =
     (case a of None \<Rightarrow> None | Some x \<Rightarrow> if v = 0 then None else fl (x / v))"

definition fl_sqrt :: "real option \<Rightarrow> real option" where
  "fl_sqrt a = (case a of None \<Rightarrow> None | Some x \<Rightarrow> Some (sqrt x))"

text \<open>\<open>d ** 2\<close> for a Python float: the square of an infinity is an infinity.\<close>

definition py_square :: "real option \<Rightarrow> py_error + real option" where
  "py_square a =
     (case a of
        None \<Rightarrow> Inr None
      | Some d \<Rightarrow> if finite_float (d\<^sup>2) then Inr (Some (d\<^sup>2)) else Inl OverflowError)"

section \<open>Nodes and the graph model (data_parser.py, EVRP_Graph.py)\<close>

text \<open>
  A \<open>Position\<close> and a \<open>Window\<close> are two-element lists in the source (built by the
  constructor and by the parser only) and pairs here.
\<close>

record node =
  StringId :: string
  Type :: string
  Position :: "real \<times> real"
  Demand :: real
  Window :: "real \<times> real"
  ServiceTime :: real

text \<open>
  \<open>np.sqrt((pos2[0] - pos1[0])**2 + (pos2[1] - pos1[1])**2)\<close>: each square can raise
  OverflowError; the differences and the sum cannot, they become infinite.
\<close>

definition euclidean_distance :: "real \<times> real \<Rightarrow> real \<times> real \<Rightarrow> py_error + real option" where
  "euclidean_distance pos1 pos2 =
     (case py_square (fl_sub (Some (fst pos2)) (Some (fst pos1))) of
        Inl e \<Rightarrow> Inl e
      | Inr sx \<Rightarrow>
          (case py_square (fl_sub (Some (snd pos2)) (Some (snd pos1))) of
             Inl e \<Rightarrow> Inl e
           | Inr sy \<Rightarrow> Inr (fl_sqrt (fl_add sx sy))))"

text \<open>
  Indexing a Python list or a numpy array with an integer: a negative index counts from
  the end, an index out of range raises IndexError.
\<close>

definition py_get :: "'a list \<Rightarrow> int \<Rightarrow> py_error + 'a" where
  "py_get xs i =
     (let n = int (length xs); k = (if i < 0 then i + n else i)
      in if 0 \<le> k \<and> k < n then Inr (xs ! nat k) else Inl IndexError)"

definition py_get2 :: "'a list list \<Rightarrow> int \<Rightarrow> int \<Rightarrow> py_error + 'a" where
  "py_get2 m i j = (case py_get m i of Inl e \<Rightarrow> Inl e | Inr row \<Rightarrow> py_get row j)"

text \<open>\<open>range(a, b)\<close> as the list of its integers.\<close>

definition py_range :: "int \<Rightarrow> int \<Rightarrow> int list" where
  "py_range a b = [a..b - 1]"

text \<open>\<open>xs * k\<close> for a list and an integer: no copy at all when \<open>k\<close> is negative.\<close>

definition py_repeat :: "'a list \<Rightarrow> int \<Rightarrow> 'a list" where
  "py_repeat xs k = concat (replicate (nat k) xs)"

text \<open>A dictionary lookup \<open>d[k]\<close>, which raises KeyError on a missing key.\<close>

definition py_lookup :: "('k \<rightharpoonup> 'v) \<Rightarrow> 'k \<Rightarrow> py_error + 'v" where
  "py_lookup d k = (case d k of None \<Rightarrow> Inl KeyError | Some x \<Rightarrow> Inr x)"

text \<open>
  \<open>generate_distance_matrix\<close>: a matrix of zeros, the entries \<open>[i][j]\<close> for \<open>j\<close> from
  \<open>i\<close> on filled in by the two loops, which stop at the first distance that raises,
  then the transpose added and the sum multiplied by \<open>1.0\<close>. All the indices of the
  loops are in range. The transpose is added in place
  (\<open>distance_matrix += distance_matrix.transpose()\<close>); numpy computes the sum of the
  matrix as it was and its transpose, which is what \<open>add_m\<close> and \<open>transpose_m\<close> do.
\<close>

definition zeros :: "nat \<Rightarrow> real option list list" where
  "zeros n = replicate n (replicate n (Some 0))"

definition set_entry ::
  "real option list list \<Rightarrow> nat \<Rightarrow> nat \<Rightarrow> real option \<Rightarrow> real option list list" where
  "set_entry m i j x = m[i := (m ! i)[j := x]]"

fun fill_row ::
  "node list \<Rightarrow> nat \<Rightarrow> nat list \<Rightarrow> real option list list \<Rightarrow> py_error + real option list list" where
  "fill_row nodes i [] m = Inr m"
| "fill_row nodes i (j # js) m =
     (case euclidean_distance (Position (nodes ! i)) (Position (nodes ! j)) of
        Inl e \<Rightarrow> Inl e
      | Inr d \<Rightarrow> fill_row nodes i js (set_entry m i j d))"

fun fill_upper ::
  "node list \<Rightarrow> nat list \<Rightarrow> real option list list \<Rightarrow> py_error + real option list list" where
  "fill_upper nodes [] m = Inr m"
| "fill_upper nodes (i # rows) m =
     (case fill_row nodes i [i..<length nodes] m of
        Inl e \<Rightarrow> Inl e
      | Inr m' \<Rightarrow> fill_upper nodes rows m')"

definition transpose_m :: "real option list list \<Rightarrow> real option list list" where
  "transpose_m m = map (\<lambda>i. map (\<lambda>j. m ! j ! i) [0..<length m]) [0..<length m]"

definition add_m :: "real option list list \<Rightarrow> real option list list \<Rightarrow> real option list list" where
  "add_m a b = map2 (map2 fl_add) a b"

definition generate_distance_matrix :: "node list \<Rightarrow> py_error + real option list list" where
  "generate_distance_matrix nodes =
     (case fill_upper nodes [0..<length nodes] (zeros (length nodes)) of
        Inl e \<Rightarrow> Inl e
      | Inr distance_matrix \<Rightarrow>
          Inr (map (map (\<lambda>x. fl_mul x (Some 1)))
                 (add_m distance_matrix (transpose_m distance_matrix))))"

text \<open>
  The graph object. The vehicle parameters \<open>Q\<close>, \<open>C\<close>, \<open>r\<close>, \<open>g\<close>, \<open>v\<close> are the
  fields \<open>g_Q\<close> ... \<open>g_v\<close>.
\<close>

record graph =
  Depot_nodes :: "node list"
  Customer_nodes :: "node list"
  RS_nodes :: "node list"
  parameters :: "string \<rightharpoonup> real"
  Nodes :: "node list"
  Depot_Idx :: "int list"
  Customer_Idx :: "int list"
  RS_Idx :: "int list"
  distance_matrix :: "real option list list"
  CustomerTW :: "(real \<times> real) list"
  CustomerServiceTime :: "real list"
  CustomerDemand :: "real list"
  g_Q :: real
  g_C :: real
  g_r :: real
  g_g :: real
  g_v :: real
  travel_time_matrix :: "real option list list"

text \<open>
  \<open>Graph_EVRP_TW.__init__\<close>. There is no check on the number of depots: the whole list
  \<open>Depot_nodes\<close> is put at both ends of \<open>Nodes\<close>. The statements that can raise are the
  computation of the distance matrix and, after it, the five lookups in \<open>parameters\<close>.
  The division of the matrix by \<open>v\<close> is numpy's, which raises nothing: for \<open>v = 0\<close> no
  entry of the travel time matrix is a finite number.
\<close>

definition Graph_EVRP_TW_init ::
  "node list \<Rightarrow> node list \<Rightarrow> node list \<Rightarrow> (string \<rightharpoonup> real) \<Rightarrow> int \<Rightarrow> py_error + graph" where
  "Graph_EVRP_TW_init depot_nodes customer_nodes rs_nodes params RS_dummy_count =
     (let nodes = depot_nodes @ customer_nodes @ py_repeat rs_nodes RS_dummy_count @ depot_nodes
      in case generate_distance_matrix nodes of Inl e \<Rightarrow> Inl e | Inr dm \<Rightarrow>
         case py_lookup params ''Q'' of Inl e \<Rightarrow> Inl e | Inr q \<Rightarrow>
         case py_lookup params ''C'' of Inl e \<Rightarrow> Inl e | Inr c \<Rightarrow>
         case py_lookup params ''r'' of Inl e \<Rightarrow> Inl e | Inr r \<Rightarrow>
         case py_lookup params ''g'' of Inl e \<Rightarrow> Inl e | Inr g \<Rightarrow>
         case py_lookup params ''v'' of Inl e \<Rightarrow> Inl e | Inr v \<Rightarrow>
         Inr \<lparr> Depot_nodes = depot_nodes,
               Customer_nodes = customer_nodes,
               RS_nodes = rs_nodes,
               parameters = params,
               Nodes = nodes,
               Depot_Idx = [0, int (length nodes) - 1],
               Customer_Idx = py_range 1 (1 + int (length customer_nodes)),
               RS_Idx = py_range (1 + int (length customer_nodes)) (int (length nodes) - 1),
               distance_matrix = dm,
               CustomerTW = map Window nodes,
               CustomerServiceTime = map ServiceTime nodes,
               CustomerDemand = map Demand nodes,
               g_Q = q, g_C = c, g_r = r, g_g = g, g_v = v,
               travel_time_matrix = map (map (\<lambda>x. fl_div x v)) dm \<rparr>)"

section \<open>The arc-flow formulation (EVRP_Solver.py)\<close>

text \<open>\<open>str(i)\<close> of an integer, as the f-strings of the variable names print it.\<close>

definition digit_char :: "nat \<Rightarrow> char" where
  "digit_char d = char_of (48 + d)"

function str_nat :: "nat \<Rightarrow> string" where
  "str_nat n = (if n < 10 then [digit_char n] else str_nat (n div 10) @ [digit_char (n mod 10)])"
  by pat_completeness auto
termination
  by (relation "measure id") auto

declare str_nat.simps [simp del]

definition str_int :: "int \<Rightarrow> string" where
  "str_int i = (if i < 0 then CHR ''-'' # str_nat (nat (- i)) else str_nat (nat i))"

definition x_name :: "int \<Rightarrow> int \<Rightarrow> string" where
  "x_name i j = ''x_'' @ str_int i @ ''_'' @ str_int j"

definition tao_name :: "int \<Rightarrow> string" where
  "tao_name i = ''tao_'' @ str_int i"

definition u_name :: "int \<Rightarrow> string" where
  "u_name i = ''u_'' @ str_int i"

definition y_name :: "int \<Rightarrow> string" where
  "y_name i = ''y_'' @ str_int i"

text \<open>
  What the solver hands to the solving engine: the variables with their objective
  coefficients and bounds, and the linear constraints, each a list of variable names, the
  list of their coefficients, a sense (\<open>"E"\<close> or \<open>"L"\<close>) and a right-hand side. The
  engine refuses a coefficient that is not a finite number: the call that passes it
  raises. Its other checks (a name that was not declared, lists of different lengths) are
  not modelled.
\<close>

definition cplex_number :: "real option \<Rightarrow> py_error + real" where
  "cplex_number a = (case a of None \<Rightarrow> Inl CplexError | Some x \<Rightarrow> Inr x)"

datatype var_decl =
  Binary_var string real
| Continuous_var string real real real

datatype sense = Sense_E | Sense_L

record constraint =
  lin_ind :: "string list"
  lin_val :: "real list"
  c_sense :: sense
  c_rhs :: real

text \<open>
  A \<open>for\<close> loop whose body adds constraints to the model or raises: the constraints of
  the iterations in order, or the first exception.
\<close>

fun for_each :: "'a list \<Rightarrow> ('a \<Rightarrow> py_error + 'b list) \<Rightarrow> py_error + 'b list" where
  "for_each [] body = Inr []"
| "for_each (x # xs) body =
     (case body x of
        Inl e \<Rightarrow> Inl e
      | Inr ys \<Rightarrow> (case for_each xs body of Inl e \<Rightarrow> Inl e | Inr zs \<Rightarrow> Inr (ys @ zs)))"

text \<open>
  The fields of the solver object set by \<open>__init__\<close> before the model is built. The
  fields \<open>D\<close>, \<open>C\<close>, \<open>Q\<close>, \<open>h\<close>, \<open>g\<close>, \<open>distance_matrix\<close> and \<open>CustomerDemand\<close> are
  \<open>s_D\<close> ... \<open>s_CustomerDemand\<close> here.
\<close>

record solver =
  V_sequence :: "int list"
  F_Prime_sequence :: "int list"
  s_D :: "int list"
  Depot_start :: "int list"
  Depot_end :: "int list"
  V_Prime_N_plus_1_sequence :: "int list"
  V_Prime_0_sequence :: "int list"
  V_Prime_sequence :: "int list"
  s_C :: real
  s_Q :: real
  s_h :: real
  s_g :: real
  l_0 :: real
  s_distance_matrix :: "real option list list"
  model_size :: int
  CustomerTimeWindow :: "(real \<times> real) list"
  CustomerService :: "real list"
  s_CustomerDemand :: "real list"
  Travel_Time :: "real option list list"

definition solver_fields :: "graph \<Rightarrow> real \<Rightarrow> py_error + solver" where
  "solver_fields gr l0 =
     (case py_get (Depot_Idx gr) (- 1) of Inl e \<Rightarrow> Inl e | Inr d_last \<Rightarrow>
      case py_get (Depot_Idx gr) 0 of Inl e \<Rightarrow> Inl e | Inr d_first \<Rightarrow>
      Inr \<lparr> V_sequence = Customer_Idx gr,
            F_Prime_sequence = RS_Idx gr,
            s_D = Depot_Idx gr,
            Depot_start = [0],
            Depot_end = [int (length (Nodes gr)) - 1],
            V_Prime_N_plus_1_sequence = Customer_Idx gr @ RS_Idx gr @ [d_last],
            V_Prime_0_sequence = [d_first] @ Customer_Idx gr @ RS_Idx gr,
            V_Prime_sequence = Customer_Idx gr @ RS_Idx gr,
            s_C = g_C gr, s_Q = g_Q gr, s_h = g_r gr, s_g = g_g gr, l_0 = l0,
            s_distance_matrix = distance_matrix gr,
            model_size = int (length (Nodes gr)),
            CustomerTimeWindow = CustomerTW gr,
            CustomerService = CustomerServiceTime gr,
            s_CustomerDemand = CustomerDemand gr,
            Travel_Time = travel_time_matrix gr \<rparr>)"

subsection \<open>Decision variables and objective\<close>

definition path_link_variable :: "solver \<Rightarrow> string list" where
  "path_link_variable s =
     concat (map (\<lambda>i. map (x_name i) (filter (\<lambda>j. i \<noteq> j) (py_range 0 (model_size s))))
                 (py_range 0 (model_size s)))"

text \<open>
  Two nested \<open>for\<close> loops over \<open>i\<close> and \<open>j\<close> whose body runs for \<open>i != j\<close> only and
  yields one item or raises.
\<close>

definition pair_loop ::
  "int list \<Rightarrow> int list \<Rightarrow> (int \<Rightarrow> int \<Rightarrow> py_error + 'b) \<Rightarrow> py_error + 'b list" where
  "pair_loop origins successors row =
     for_each origins (\<lambda>i.
       for_each successors (\<lambda>j.
         if i \<noteq> j
         then (case row i j of Inl e \<Rightarrow> Inl e | Inr c \<Rightarrow> Inr [c])
         else Inr []))"

definition objective_function_coef :: "solver \<Rightarrow> py_error + real option list" where
  "objective_function_coef s =
     pair_loop (py_range 0 (model_size s)) (py_range 0 (model_size s))
       (py_get2 (s_distance_matrix s))"

text \<open>
  \<open>_set_objective_function\<close>: the binary arc variables with the distances as objective
  coefficients, in one call, then for every node its time, load and battery variable with
  objective coefficient 0 and their bounds.
\<close>

definition node_variables :: "solver \<Rightarrow> int \<Rightarrow> py_error + var_decl list" where
  "node_variables s i =
     (case py_get (CustomerTimeWindow s) i of
        Inl e \<Rightarrow> Inl e
      | Inr w \<Rightarrow>
          Inr [Continuous_var (tao_name i) 0 (fst w) (snd w),
               Continuous_var (u_name i) 0 0 (s_C s),
               Continuous_var (y_name i) 0 (if i = 0 then s_Q s else 0) (s_Q s)])"

definition set_objective_function :: "solver \<Rightarrow> py_error + var_decl list" where
  "set_objective_function s =
     (case objective_function_coef s of
        Inl e \<Rightarrow> Inl e
      | Inr coef \<Rightarrow>
          (case for_each coef (\<lambda>d. case cplex_number d of Inl e \<Rightarrow> Inl e | Inr x \<Rightarrow> Inr [x]) of
             Inl e \<Rightarrow> Inl e
           | Inr obj \<Rightarrow>
               (case for_each (py_range 0 (model_size s)) (node_variables s) of
                  Inl e \<Rightarrow> Inl e
                | Inr vs \<Rightarrow> Inr (map2 Binary_var (path_link_variable s) obj @ vs))))"

subsection \<open>Constraints\<close>

text \<open>
  The rows for the customers (sense \<open>"E"\<close>) and for the recharging stations (sense
  \<open>"L"\<close>): the outgoing arcs of \<open>i\<close>, and a list of ones whose length is computed from
  the length of the successor list, not from the list of arcs.
\<close>

definition visit_constraint :: "solver \<Rightarrow> sense \<Rightarrow> int \<Rightarrow> constraint" where
  "visit_constraint s sn i =
     \<lparr> lin_ind = map (x_name i) (filter (\<lambda>j. i \<noteq> j) (V_Prime_N_plus_1_sequence s)),
       lin_val = py_repeat [1] (int (length (V_Prime_N_plus_1_sequence s)) - 1),
       c_sense = sn,
       c_rhs = 1 \<rparr>"

definition customer_constraints :: "solver \<Rightarrow> constraint list" where
  "customer_constraints s = map (visit_constraint s Sense_E) (V_sequence s)"

definition rs_constraints :: "solver \<Rightarrow> constraint list" where
  "rs_constraints s = map (visit_constraint s Sense_L) (F_Prime_sequence s)"

text \<open>
  Route consistency. The source calls the arcs leaving \<open>j\<close> \<open>in_vars\<close> and the arcs
  entering \<open>j\<close> \<open>out_vars\<close>; the former get the coefficient 1, the latter -1.
\<close>

definition route_consistency_constraint :: "solver \<Rightarrow> int \<Rightarrow> constraint" where
  "route_consistency_constraint s j =
     (let in_vars = map (\<lambda>i_start. x_name j i_start)
                        (filter (\<lambda>i_start. i_start \<noteq> j) (V_Prime_N_plus_1_sequence s));
          out_vars = map (\<lambda>i_end. x_name i_end j)
                         (filter (\<lambda>i_end. i_end \<noteq> j) (V_Prime_0_sequence s))
      in \<lparr> lin_ind = in_vars @ out_vars,
            lin_val = py_repeat [1] (int (length in_vars)) @ py_repeat [- 1] (int (length out_vars)),
            c_sense = Sense_E,
            c_rhs = 0 \<rparr>)"

definition route_consistency_constraints :: "solver \<Rightarrow> constraint list" where
  "route_consistency_constraints s = map (route_consistency_constraint s) (V_Prime_sequence s)"

text \<open>
  Five families are generated by \<open>pair_loop\<close>, over an origin \<open>i\<close> and a successor \<open>j\<close>
  with \<open>i != j\<close>. Reading a matrix or a list out of range raises IndexError; a
  coefficient that is not a finite number makes the engine raise.
\<close>

definition travel_time_customer_row :: "solver \<Rightarrow> int \<Rightarrow> int \<Rightarrow> py_error + constraint" where
  "travel_time_customer_row s i j =
     (case py_get2 (Travel_Time s) i j of Inl e \<Rightarrow> Inl e | Inr t \<Rightarrow>
      case py_get (CustomerService s) i of Inl e \<Rightarrow> Inl e | Inr sv \<Rightarrow>
      case cplex_number (fl_add (fl_add t (Some sv)) (Some (l_0 s))) of
        Inl e \<Rightarrow> Inl e
      | Inr k \<Rightarrow>
          Inr \<lparr> lin_ind = [tao_name i, tao_name j, x_name i j],
                lin_val = [1, - 1, k],
                c_sense = Sense_L,
                c_rhs = l_0 s \<rparr>)"

definition travel_time_rs_row :: "solver \<Rightarrow> int \<Rightarrow> int \<Rightarrow> py_error + constraint" where
  "travel_time_rs_row s i j =
     (case cplex_number (fl_add (Some (l_0 s)) (fl_mul (Some (s_g s)) (Some (s_Q s)))) of
        Inl e \<Rightarrow> Inl e
      | Inr k \<Rightarrow>
          Inr \<lparr> lin_ind = [tao_name i, tao_name j, x_name i j, y_name i],
                lin_val = [1, - 1, k, - s_g s],
                c_sense = Sense_L,
                c_rhs = l_0 s \<rparr>)"

definition load_capacity_row :: "solver \<Rightarrow> int \<Rightarrow> int \<Rightarrow> py_error + constraint" where
  "load_capacity_row s i j =
     (case py_get (s_CustomerDemand s) i of Inl e \<Rightarrow> Inl e | Inr q \<Rightarrow>
      case cplex_number (fl_add (Some (s_C s)) (Some q)) of
        Inl e \<Rightarrow> Inl e
      | Inr k \<Rightarrow>
          Inr \<lparr> lin_ind = [u_name j, u_name i, x_name i j],
                lin_val = [1, - 1, k],
                c_sense = Sense_L,
                c_rhs = s_C s \<rparr>)"

definition battery_customer_row :: "solver \<Rightarrow> int \<Rightarrow> int \<Rightarrow> py_error + constraint" where
  "battery_customer_row s i j =
     (case py_get2 (s_distance_matrix s) i j of Inl e \<Rightarrow> Inl e | Inr d \<Rightarrow>
      case cplex_number (fl_add (fl_mul (Some (s_h s)) d) (Some (s_Q s))) of
        Inl e \<Rightarrow> Inl e
      | Inr k \<Rightarrow>
          Inr \<lparr> lin_ind = [y_name j, y_name i, x_name i j],
                lin_val = [1, - 1, k],
                c_sense = Sense_L,
                c_rhs = s_Q s \<rparr>)"

definition battery_rs_row :: "solver \<Rightarrow> int \<Rightarrow> int \<Rightarrow> py_error + constraint" where
  "battery_rs_row s i j =
     (case py_get2 (s_distance_matrix s) i j of Inl e \<Rightarrow> Inl e | Inr d \<Rightarrow>
      case cplex_number (fl_mul (Some (s_h s)) d) of
        Inl e \<Rightarrow> Inl e
      | Inr k \<Rightarrow>
          Inr \<lparr> lin_ind = [y_name j, x_name i j],
                lin_val = [1, k],
                c_sense = Sense_L,
                c_rhs = s_Q s \<rparr>)"

definition travel_time_customer_constraints :: "solver \<Rightarrow> py_error + constraint list" where
  "travel_time_customer_constraints s =
     pair_loop (Depot_start s @ V_sequence s) (V_Prime_N_plus_1_sequence s)
       (travel_time_customer_row s)"

definition travel_time_rs_constraints :: "solver \<Rightarrow> py_error + constraint list" where
  "travel_time_rs_constraints s =
     pair_loop (F_Prime_sequence s) (V_Prime_N_plus_1_sequence s) (travel_time_rs_row s)"

definition load_capacity_constraints :: "solver \<Rightarrow> py_error + constraint list" where
  "load_capacity_constraints s =
     pair_loop (V_Prime_0_sequence s) (V_Prime_N_plus_1_sequence s) (load_capacity_row s)"

definition battery_customer_constraints :: "solver \<Rightarrow> py_error + constraint list" where
  "battery_customer_constraints s =
     pair_loop (V_sequence s) (V_Prime_N_plus_1_sequence s) (battery_customer_row s)"

definition battery_rs_constraints :: "solver \<Rightarrow> py_error + constraint list" where
  "battery_rs_constraints s =
     pair_loop (Depot_start s @ F_Prime_sequence s) (V_Prime_N_plus_1_sequence s)
       (battery_rs_row s)"

text \<open>\<open>_set_constraints\<close>: the eight families in the order of the source.\<close>

definition set_constraints :: "solver \<Rightarrow> py_error + constraint list" where
  "set_constraints s =
     (case travel_time_customer_constraints s of Inl e \<Rightarrow> Inl e | Inr tc \<Rightarrow>
      case travel_time_rs_constraints s of Inl e \<Rightarrow> Inl e | Inr tr \<Rightarrow>
      case load_capacity_constraints s of Inl e \<Rightarrow> Inl e | Inr lc \<Rightarrow>
      case battery_customer_constraints s of Inl e \<Rightarrow> Inl e | Inr bc \<Rightarrow>
      case battery_rs_constraints s of Inl e \<Rightarrow> Inl e | Inr br \<Rightarrow>
      Inr (customer_constraints s @ rs_constraints s @ route_consistency_constraints s
           @ tc @ tr @ lc @ bc @ br))"

text \<open>
  \<open>EVPR_TW_Solver.__init__\<close>: the fields, then \<open>_initialize_model\<close>, which declares the
  variables and then generates the constraints. The result is the solver together with
  the variables and constraints given to the solving engine. Nothing on this path looks
  at the number of depots.
\<close>

definition EVPR_TW_Solver_init ::
  "graph \<Rightarrow> real \<Rightarrow> py_error + solver \<times> var_decl list \<times> constraint list" where
  "EVPR_TW_Solver_init gr l0 =
     (case solver_fields gr l0 of Inl e \<Rightarrow> Inl e | Inr s \<Rightarrow>
      case set_objective_function s of Inl e \<Rightarrow> Inl e | Inr vars \<Rightarrow>
      case set_constraints s of Inl e \<Rightarrow> Inl e | Inr cons \<Rightarrow>
      Inr (s, vars, cons))"

text \<open>
  The meaning the solving engine gives to a constraint under an assignment of values to
  the variable names: the sum of coefficient times value, compared with the right-hand
  side.
\<close>

definition lhs_value :: "(string \<Rightarrow> real) \<Rightarrow> constraint \<Rightarrow> real" where
  "lhs_value val c = sum_list (map2 (\<lambda>name coef. coef * val name) (lin_ind c) (lin_val c))"

definition holds :: "(string \<Rightarrow> real) \<Rightarrow> constraint \<Rightarrow> bool" where
  "holds val c =
     (case c_sense c of
        Sense_E \<Rightarrow> lhs_value val c = c_rhs c
      | Sense_L \<Rightarrow> lhs_value val c \<le> c_rhs c)"


section \<open>The dataset parser (data_parser.py)\<close>

text \<open>
  \<open>parse_file\<close> reads the file line by line and matches every line against two regular
  expressions. The matching and the conversion \<open>float\<close> are Python's; a line is given
  here by what they make of it: a node line with its identifier, its type and the six
  numeric fields (\<open>None\<close> where \<open>float\<close> raises ValueError on the matched text), a
  parameter line with its key and value, or a line that matches neither expression.
\<close>

datatype parsed_line =
  Node_line string string "real option" "real option" "real option" "real option"
    "real option" "real option"
| Parameter_line string "real option"
| Other_line

type_synonym parse_state = "node list \<times> node list \<times> node list \<times> (string \<rightharpoonup> real)"

text \<open>The six conversions of a node line, in the order the source makes them.\<close>

definition node_of_fields ::
  "string \<Rightarrow> string \<Rightarrow> real option \<Rightarrow> real option \<Rightarrow> real option \<Rightarrow> real option
     \<Rightarrow> real option \<Rightarrow> real option \<Rightarrow> py_error + node" where
  "node_of_fields sid ty x y d ws we st =
     (case x of None \<Rightarrow> Inl ValueError | Some x' \<Rightarrow>
      case y of None \<Rightarrow> Inl ValueError | Some y' \<Rightarrow>
      case d of None \<Rightarrow> Inl ValueError | Some d' \<Rightarrow>
      case ws of None \<Rightarrow> Inl ValueError | Some ws' \<Rightarrow>
      case we of None \<Rightarrow> Inl ValueError | Some we' \<Rightarrow>
      case st of None \<Rightarrow> Inl ValueError | Some st' \<Rightarrow>
      Inr \<lparr> StringId = sid, Type = ty, Position = (x', y'), Demand = d',
            Window = (ws', we'), ServiceTime = st' \<rparr>)"

fun parse_lines :: "parsed_line list \<Rightarrow> parse_state \<Rightarrow> py_error + parse_state" where
  "parse_lines [] st = Inr st"
| "parse_lines (Node_line sid ty x y d ws we sv # rest)
       (depot_nodes, customer_nodes, rs_nodes, params) =
     (case node_of_fields sid ty x y d ws we sv of
        Inl e \<Rightarrow> Inl e
      | Inr node_data \<Rightarrow>
          if prefix ''D'' sid
          then parse_lines rest (depot_nodes @ [node_data], customer_nodes, rs_nodes, params)
          else if prefix ''S'' sid
          then parse_lines rest (depot_nodes, customer_nodes, rs_nodes @ [node_data], params)
          else if prefix ''C'' sid
          then parse_lines rest (depot_nodes, customer_nodes @ [node_data], rs_nodes, params)
          else Inl ValueError)"
| "parse_lines (Parameter_line key val # rest)
       (depot_nodes, customer_nodes, rs_nodes, params) =
     (case val of
        None \<Rightarrow> Inl ValueError
      | Some x \<Rightarrow> parse_lines rest (depot_nodes, customer_nodes, rs_nodes, params(key \<mapsto> x)))"
| "parse_lines (Other_line # rest) st = parse_lines rest st"

text \<open>
  After the loop the source compares \<open>Customer_nodes[0].Position\<close> with
  \<open>Depot_nodes[0].Position\<close>, the customer read first, with no test that either list
  has an element.
\<close>

definition parse_file :: "parsed_line list \<Rightarrow> py_error + parse_state" where
  "parse_file lines =
     (case parse_lines lines ([], [], [], Map.empty) of
        Inl e \<Rightarrow> Inl e
      | Inr (depot_nodes, customer_nodes, rs_nodes, params) \<Rightarrow>
          (case customer_nodes of
             [] \<Rightarrow> Inl IndexError
           | c # cs \<Rightarrow>
               (case depot_nodes of
                  [] \<Rightarrow> Inl IndexError
                | d # ds \<Rightarrow>
                    Inr (depot_nodes,
                         if Position c = Position d then cs else customer_nodes,
                         rs_nodes, params))))"

definition is_customer_line :: "parsed_line \<Rightarrow> bool" where
  "is_customer_line l =
     (case l of
        Node_line sid ty x y d ws we sv \<Rightarrow> prefix ''C'' sid
      | Parameter_line key val \<Rightarrow> False
      | Other_line \<Rightarrow> False)"

section \<open>Notions used in the statements\<close>

text \<open>
  A list of arc labels is chained when every label is well formed and the destination
  index of each arc is the origin index of the next.
\<close>

fun chained :: "string list \<Rightarrow> bool" where
  "chained [] = True"
| "chained [a] = (case arc_indices a of Inl e \<Rightarrow> False | Inr ij \<Rightarrow> True)"
| "chained (a # b # rest) =
     (case arc_indices a of
        Inl e \<Rightarrow> False
      | Inr (i, j) \<Rightarrow>
          (case arc_indices b of
             Inl e \<Rightarrow> False
           | Inr (k, l) \<Rightarrow> j = k \<and> chained (b # rest)))"

text \<open>A matrix is square of size \<open>n\<close>: \<open>n\<close> rows of length \<open>n\<close>.\<close>

definition square_m :: "nat \<Rightarrow> 'a list list \<Rightarrow> bool" where
  "square_m n m = (length m = n \<and> list_all (\<lambda>row. length row = n) m)"

text \<open>
  The variables of the formulation: the arc selection \<open>x\<close> of an ordered pair of nodes,
  and the time, load and battery potential of a node. A name is read back as a variable
  the way the route reconstructor reads an arc label: split at the underscores, the
  indices converted by \<open>int\<close>. An assignment \<open>\<nu>\<close> of values to the variables gives
  every name the value of the variable it names.
\<close>

datatype var = X int int | Tao int | U int | Y int

definition var_of_name :: "string \<Rightarrow> var option" where
  "var_of_name name =
     (case split_sep CHR ''_'' name of
        [p, a] \<Rightarrow>
          (case py_int a of
             Inl e \<Rightarrow> None
           | Inr i \<Rightarrow>
               if p = ''tao'' then Some (Tao i)
               else if p = ''u'' then Some (U i)
               else if p = ''y'' then Some (Y i)
               else None)
      | [p, a, b] \<Rightarrow>
          if p = ''x''
          then (case arc_indices name of Inl e \<Rightarrow> None | Inr (i, j) \<Rightarrow> Some (X i j))
          else None
      | _ \<Rightarrow> None)"

definition value_of :: "(var \<Rightarrow> real) \<Rightarrow> string \<Rightarrow> real" where
  "value_of \<nu> name = (case var_of_name name of None \<Rightarrow> 0 | Some x \<Rightarrow> \<nu> x)"

text \<open>
  A row is well formed when it has as many coefficients as names, no name twice, and
  every name is the name of a variable.
\<close>

definition well_formed :: "constraint \<Rightarrow> bool" where
  "well_formed c =
     (length (lin_ind c) = length (lin_val c) \<and> distinct (lin_ind c)
      \<and> list_all (\<lambda>name. var_of_name name \<noteq> None) (lin_ind c))"

section \<open>The constraints as the specification states them\<close>

text \<open>
  The constraint families in the words of the specification, as conditions on an
  assignment \<open>\<nu>\<close> of values to the variables, to be compared with the rows the
  formulator generates. The node sets are those of a graph: the successors of an arc are
  the customers, the station replicas and the end depot, the predecessors are the start
  depot, the customers and the station replicas. The distance of two nodes is the
  Euclidean distance of their positions, the travel time is the distance divided by the
  velocity.
\<close>

definition spec_successors :: "graph \<Rightarrow> int list" where
  "spec_successors gr = Customer_Idx gr @ RS_Idx gr @ [int (length (Nodes gr)) - 1]"

definition spec_predecessors :: "graph \<Rightarrow> int list" where
  "spec_predecessors gr = 0 # Customer_Idx gr @ RS_Idx gr"

text \<open>Every ordered pair \<open>(i, j)\<close> with \<open>i\<close> an origin, \<open>j\<close> a successor and \<open>i \<noteq> j\<close>.\<close>

definition spec_arcs :: "int list \<Rightarrow> int list \<Rightarrow> (int \<times> int) list" where
  "spec_arcs origins successors =
     concat (map (\<lambda>i. map (Pair i) (filter (\<lambda>j. i \<noteq> j) successors)) origins)"

definition spec_distance :: "graph \<Rightarrow> int \<Rightarrow> int \<Rightarrow> real" where
  "spec_distance gr i j =
     sqrt ((fst (Position (Nodes gr ! nat j)) - fst (Position (Nodes gr ! nat i)))\<^sup>2
         + (snd (Position (Nodes gr ! nat j)) - snd (Position (Nodes gr ! nat i)))\<^sup>2)"

definition spec_travel_time :: "graph \<Rightarrow> int \<Rightarrow> int \<Rightarrow> real" where
  "spec_travel_time gr i j = spec_distance gr i j / g_v gr"

definition spec_service :: "graph \<Rightarrow> int \<Rightarrow> real" where
  "spec_service gr i = ServiceTime (Nodes gr ! nat i)"

definition spec_customer_coverage :: "(var \<Rightarrow> real) \<Rightarrow> graph \<Rightarrow> int \<Rightarrow> bool" where
  "spec_customer_coverage \<nu> gr i =
     ((\<Sum>j\<leftarrow>filter (\<lambda>j. j \<noteq> i) (spec_successors gr). \<nu> (X i j)) = 1)"

definition spec_station_bound :: "(var \<Rightarrow> real) \<Rightarrow> graph \<Rightarrow> int \<Rightarrow> bool" where
  "spec_station_bound \<nu> gr i =
     ((\<Sum>j\<leftarrow>filter (\<lambda>j. j \<noteq> i) (spec_successors gr). \<nu> (X i j)) \<le> 1)"

definition spec_flow_conservation :: "(var \<Rightarrow> real) \<Rightarrow> graph \<Rightarrow> int \<Rightarrow> bool" where
  "spec_flow_conservation \<nu> gr j =
     ((\<Sum>i\<leftarrow>filter (\<lambda>i. i \<noteq> j) (spec_predecessors gr). \<nu> (X i j)) =
      (\<Sum>i\<leftarrow>filter (\<lambda>i. i \<noteq> j) (spec_successors gr). \<nu> (X j i)))"

definition spec_time_customer ::
  "(var \<Rightarrow> real) \<Rightarrow> graph \<Rightarrow> real \<Rightarrow> int \<times> int \<Rightarrow> bool" where
  "spec_time_customer \<nu> gr l0 arc =
     (\<nu> (Tao (fst arc)) - \<nu> (Tao (snd arc))
        + (spec_travel_time gr (fst arc) (snd arc) + spec_service gr (fst arc) + l0)
          * \<nu> (X (fst arc) (snd arc))
      \<le> l0)"

definition spec_time_station ::
  "(var \<Rightarrow> real) \<Rightarrow> graph \<Rightarrow> real \<Rightarrow> int \<times> int \<Rightarrow> bool" where
  "spec_time_station \<nu> gr l0 arc =
     (\<nu> (Tao (fst arc)) - \<nu> (Tao (snd arc))
        + (l0 + g_g gr * g_Q gr) * \<nu> (X (fst arc) (snd arc))
        - g_g gr * \<nu> (Y (fst arc))
      \<le> l0)"

definition spec_battery_customer :: "(var \<Rightarrow> real) \<Rightarrow> graph \<Rightarrow> int \<times> int \<Rightarrow> bool" where
  "spec_battery_customer \<nu> gr arc =
     (\<nu> (Y (snd arc)) - \<nu> (Y (fst arc))
        + (g_r gr * spec_distance gr (fst arc) (snd arc) + g_Q gr)
          * \<nu> (X (fst arc) (snd arc))
      \<le> g_Q gr)"

definition spec_battery_depot_station ::
  "(var \<Rightarrow> real) \<Rightarrow> graph \<Rightarrow> int \<times> int \<Rightarrow> bool" where
  "spec_battery_depot_station \<nu> gr arc =
     (\<nu> (Y (snd arc))
        + g_r gr * spec_distance gr (fst arc) (snd arc) * \<nu> (X (fst arc) (snd arc))
      \<le> g_Q gr)"

text \<open>
  A row states flow conservation at \<open>j\<close> when it is an equality that holds under exactly
  the assignments under which inflow equals outflow at \<open>j\<close>.
\<close>

definition states_flow :: "graph \<Rightarrow> int \<Rightarrow> constraint \<Rightarrow> bool" where
  "states_flow gr j c =
     (c_sense c = Sense_E \<and> (\<forall>\<nu>. holds (value_of \<nu>) c = spec_flow_conservation \<nu> gr j))"

text \<open>
  An instance of moderate size: every coordinate, service time, demand, vehicle
  parameter and the constant \<open>l_0\<close> is at most \<open>2 ^ 100\<close> in magnitude, and the velocity
  at least \<open>1 / 2 ^ 100\<close>. No float computed from such an instance leaves the finite
  range.
\<close>

definition moderate :: "real \<Rightarrow> bool" where
  "moderate x = (\<bar>x\<bar> \<le> 2 ^ 100)"

definition moderate_node :: "node \<Rightarrow> bool" where
  "moderate_node n =
     (moderate (fst (Position n)) \<and> moderate (snd (Position n))
      \<and> moderate (ServiceTime n) \<and> moderate (Demand n))"

definition moderate_parameters :: "(string \<rightharpoonup> real) \<Rightarrow> bool" where
  "moderate_parameters params =
     (case (params ''Q'', params ''C'', params ''r'', params ''g'', params ''v'') of
        (Some q, Some c, Some r, Some g, Some v) \<Rightarrow>
          moderate q \<and> moderate c \<and> moderate r \<and> moderate g \<and> 1 / 2 ^ 100 \<le> \<bar>v\<bar>
      | _ \<Rightarrow> False)"

section \<open>A small instance\<close>

text \<open>
  A depot, a second depot, a customer and a recharging station with the vehicle constants
  of the dataset header, used to run the definitions on concrete input.
\<close>

definition ex_depot :: node where
  "ex_depot = \<lparr> StringId = ''D0'', Type = ''d'', Position = (40, 50), Demand = 0,
                 Window = (0, 1236), ServiceTime = 0 \<rparr>"

definition ex_depot2 :: node where
  "ex_depot2 = \<lparr> StringId = ''D1'', Type = ''d'', Position = (10, 10), Demand = 0,
                  Window = (0, 1236), ServiceTime = 0 \<rparr>"

definition ex_customer :: node where
  "ex_customer = \<lparr> StringId = ''C30'', Type = ''c'', Position = (20, 55), Demand = 10,
                    Window = (355, 407), ServiceTime = 90 \<rparr>"

definition ex_station :: node where
  "ex_station = \<lparr> StringId = ''S5'', Type = ''f'', Position = (31, 84), Demand = 0,
                   Window = (0, 1236), ServiceTime = 0 \<rparr>"

definition ex_parameters :: "string \<rightharpoonup> real" where
  "ex_parameters =
     [''Q'' \<mapsto> 77.75, ''C'' \<mapsto> 200, ''r'' \<mapsto> 1, ''g'' \<mapsto> 3.47, ''v'' \<mapsto> 1]"

section \<open>Termination of the route search\<close>

text \<open>
  Every call of \<open>find_route\<close> that returns leaves \<open>visited\<close> as it found it: what is
  added before a recursive call is removed after it. So the labels of the sequence not
  yet visited become fewer with every recursive call, and the search ends.
\<close>

lemma find_route_visited_kept:
  "find_route_find_next_dom (Inl (sequence, e, cur, st)) \<Longrightarrow>
     find_route sequence e cur st = Inr st' \<Longrightarrow> fst (snd st') = fst (snd st)"
  "find_route_find_next_dom (Inr (sequence, e, j, rest, st2)) \<Longrightarrow>
     find_next sequence e j rest st2 = Inr st2' \<Longrightarrow> fst (snd st2') = fst (snd st2)"
proof (induction sequence e cur st and sequence e j rest st2
    arbitrary: st' and st2'
    rule: find_route_find_next.pinduct)
  case (1 sequence e cur routes visited route)
  then show ?case
    by (auto simp: find_route.psimps split: sum.splits prod.splits if_splits)
next
  case (2 sequence e j st)
  then show ?case by (simp add: find_next.psimps)
next
  case (3 sequence e j n rest routes visited route)
  show ?case
  proof (cases "n \<in> visited")
    case True
    with 3 show ?thesis by (simp add: find_next.psimps)
  next
    case False
    show ?thesis
    proof (cases "arc_indices n")
      case (Inl err)
      with 3 False show ?thesis by (simp add: find_next.psimps)
    next
      case (Inr ij)
      obtain ni nj where ij: "ij = (ni, nj)" by (cases ij)
      show ?thesis
      proof (cases "ni = j")
        case neq: False
        with 3 False Inr ij show ?thesis by (simp add: find_next.psimps)
      next
        case eq: True
        show ?thesis
        proof (cases "find_route sequence e n (routes, insert n visited, route)")
          case (Inl err)
          with 3 False Inr ij eq show ?thesis by (simp add: find_next.psimps)
        next
          case inner: (Inr st1)
          obtain r1 v1 rt1 where st1: "st1 = (r1, v1, rt1)" by (cases st1)
          have v1: "v1 = insert n visited"
            using "3.IH"(1)[OF False Inr ij[symmetric] eq inner] st1 by simp
          have "find_next sequence e j rest (r1, v1 - {n}, rt1) = Inr st2'"
            using "3.prems" "3.hyps" False Inr ij eq inner st1 v1
            by (simp add: find_next.psimps)
          from "3.IH"(2)[OF False Inr ij[symmetric] eq inner _ _ _ this]
          show ?thesis using v1 False st1 by simp
        qed
      qed
    qed
  qed
qed

lemma card_rest_le:
  "card (set sequence \<union> set rest - visited) \<le> card (set sequence \<union> set (n # rest) - visited)"
  by (rule card_mono) auto

termination find_route
proof (relation "inv_image (less_than <*lex*> less_than)
    (\<lambda>x. case x of
       Inl (sequence, e, cur, (routes, visited, route)) \<Rightarrow>
         (card (set sequence - visited), Suc (length sequence))
     | Inr (sequence, e, j, rest, (routes, visited, route)) \<Rightarrow>
         (card ((set sequence \<union> set rest) - visited), length rest))", goal_cases)
  case 1
  show ?case by (intro wf_inv_image wf_lex_prod wf_less_than)
next
  case (2 sequence e cur routes visited route ij i j)
  show ?case by simp
next
  case (3 sequence e j n rest routes visited route ij ni nj)
  have "set sequence - insert n visited \<subset> (set sequence \<union> set (n # rest)) - visited"
    using 3(1) by auto
  then have "card (set sequence - insert n visited) < card ((set sequence \<union> set (n # rest)) - visited)"
    by (intro psubset_card_mono) simp_all
  then show ?case by simp
next
  case (4 sequence e j n rest routes visited route ij ni nj st1 r1 vrt v1 rt1)
  have "fst (snd st1) = fst (snd (routes, insert n visited, route))"
    using 4(9) 4(5) by (rule find_route_visited_kept(1))
  then have "v1 = insert n visited"
    using 4(6,7) by (cases st1) auto
  then have "v1 - {n} = visited"
    using 4(1) by auto
  then show ?case
    using card_rest_le[of sequence rest visited n] by simp arith
next
  case (5 sequence e j n rest routes visited route ij ni nj)
  show ?case
    using card_rest_le[of sequence rest visited n] by simp arith
next
  case (6 sequence e j n rest routes visited route)
  show ?case
    using card_rest_le[of sequence rest visited n] by simp arith
qed

section \<open>Route reconstruction: what the early return does\<close>

text \<open>
  Claim C1. The claim is that every reported route is a chain of arcs from the start
  depot to the end depot with no arc repeated. On the arc set \<open>x_0_1, x_1_5, x_1_2,
  x_2_5\<close> with end index 5 the second route reported keeps the arc \<open>x_1_5\<close> of the first
  route, which \<open>find_route\<close> did not pop when it returned at the end node, and is not
  chained: \<open>x_1_5\<close> ends at 5 and \<open>x_1_2\<close> starts at 1. On the arc set \<open>x_0_1, x_1_5,
  x_1_2, x_2_1\<close> the second route reported holds \<open>x_1_5\<close> twice.
\<close>

theorem find_and_print_routes_breaks_chain:
  "find_and_print_routes [''x_0_1'', ''x_1_5'', ''x_1_2'', ''x_2_5''] 5 =
     Inr [[''x_0_1'', ''x_1_5''], [''x_0_1'', ''x_1_5'', ''x_1_2'', ''x_2_5'']]
   \<and> \<not> chained [''x_0_1'', ''x_1_5'', ''x_1_2'', ''x_2_5'']
   \<and> find_and_print_routes [''x_0_1'', ''x_1_5'', ''x_1_2'', ''x_2_1''] 5 =
     Inr [[''x_0_1'', ''x_1_5''], [''x_0_1'', ''x_1_5'', ''x_1_2'', ''x_2_1'', ''x_1_5'']]
   \<and> \<not> distinct [''x_0_1'', ''x_1_5'', ''x_1_2'', ''x_2_1'', ''x_1_5'']"
  by code_simp

text \<open>
  Claim C9. Reconstruction is a function of the sequence, so running it twice gives the
  same routes; but the same four arcs in two iteration orders give two different sets of
  routes, again through the arc left in \<open>current_route\<close> by the early return.
\<close>

theorem find_and_print_routes_order_dependent:
  "find_and_print_routes [''x_0_1'', ''x_1_5'', ''x_1_2'', ''x_2_5''] 5 =
     Inr [[''x_0_1'', ''x_1_5''], [''x_0_1'', ''x_1_5'', ''x_1_2'', ''x_2_5'']]
   \<and> find_and_print_routes [''x_0_1'', ''x_1_2'', ''x_2_5'', ''x_1_5''] 5 =
     Inr [[''x_0_1'', ''x_1_2'', ''x_2_5''], [''x_0_1'', ''x_1_2'', ''x_1_5'']]
   \<and> set [''x_0_1'', ''x_1_5'', ''x_1_2'', ''x_2_5''] =
       set [''x_0_1'', ''x_1_2'', ''x_2_5'', ''x_1_5'']
   \<and> set [[''x_0_1'', ''x_1_5''], [''x_0_1'', ''x_1_5'', ''x_1_2'', ''x_2_5'']]
       \<noteq> set [[''x_0_1'', ''x_1_2'', ''x_2_5''], [''x_0_1'', ''x_1_2'', ''x_1_5'']]"
  by code_simp

section \<open>Reading the variable names back\<close>

text \<open>
  The decimal numeral that \<open>str\<close> writes is read back by \<open>int\<close>, so every name the
  formulator builds determines its variable: \<open>var_of_name\<close> inverts \<open>x_name\<close>,
  \<open>tao_name\<close>, \<open>u_name\<close> and \<open>y_name\<close>, and two names are equal only when their indices
  are.
\<close>

lemma of_char_digit_char: "d < 10 \<Longrightarrow> of_char (digit_char d) = 48 + d"
  by (simp add: digit_char_def)

lemma is_digit_digit_char: "d < 10 \<Longrightarrow> is_digit (digit_char d)"
  by (simp add: is_digit_def of_char_digit_char)

lemma digit_val_digit_char: "d < 10 \<Longrightarrow> digit_val (digit_char d) = int d"
  by (simp add: digit_val_def of_char_digit_char)

lemma str_nat_digits: "str_nat n \<noteq> [] \<and> list_all is_digit (str_nat n)"
proof (induction n rule: str_nat.induct)
  case (1 n)
  show ?case
  proof (cases "n < 10")
    case True
    then show ?thesis
      by (subst str_nat.simps, subst (2) str_nat.simps) (simp add: is_digit_digit_char)
  next
    case False
    have "n mod 10 < 10" by simp
    then have "is_digit (digit_char (n mod 10))" by (rule is_digit_digit_char)
    with 1 False show ?thesis
      by (subst str_nat.simps, subst (2) str_nat.simps) simp
  qed
qed

lemma digits_val_snoc: "digits_val (s @ [c]) = 10 * digits_val s + digit_val c"
  by (simp add: digits_val_def)

lemma digits_val_str_nat: "digits_val (str_nat n) = int n"
proof (induction n rule: str_nat.induct)
  case (1 n)
  show ?case
  proof (cases "n < 10")
    case True
    then show ?thesis
      by (subst str_nat.simps) (simp add: digits_val_def digit_val_digit_char)
  next
    case False
    have "digit_val (digit_char (n mod 10)) = int (n mod 10)"
      by (rule digit_val_digit_char) simp
    with 1 False show ?thesis
      by (subst str_nat.simps) (simp add: digits_val_snoc zdiv_int zmod_int)
  qed
qed

lemma py_digits_str_nat: "py_digits (str_nat n) = Inr (int n)"
  using str_nat_digits[of n] by (simp add: py_digits_def digits_val_str_nat)

lemma is_digit_plain:
  assumes "is_digit c"
  shows "\<not> py_isspace c" "c \<noteq> CHR ''-''" "c \<noteq> CHR ''+''" "c \<noteq> CHR ''_''"
proof -
  have r: "48 \<le> (of_char c :: nat)" "(of_char c :: nat) \<le> 57"
    using assms by (simp_all add: is_digit_def Let_def)
  show "\<not> py_isspace c"
    using r by (auto simp: py_isspace_def)
  show "c \<noteq> CHR ''-''" using r by auto
  show "c \<noteq> CHR ''+''" using r by auto
  show "c \<noteq> CHR ''_''" using r by auto
qed

lemma py_strip_plain:
  assumes "s \<noteq> []" "\<not> py_isspace (hd s)" "\<not> py_isspace (last s)"
  shows "py_strip s = s"
proof -
  have "dropWhile py_isspace s = s"
    using assms(1,2) by (cases s) simp_all
  moreover have "dropWhile py_isspace (rev s) = rev s"
    using assms(1,3) by (cases "rev s") (simp_all add: hd_rev[symmetric])
  ultimately show ?thesis by (simp add: py_strip_def)
qed

lemma str_nat_ends:
  "\<not> py_isspace (hd (str_nat n))" "\<not> py_isspace (last (str_nat n))"
  "hd (str_nat n) \<noteq> CHR ''-''" "hd (str_nat n) \<noteq> CHR ''+''"
proof -
  have ne: "str_nat n \<noteq> []" and all: "list_all is_digit (str_nat n)"
    using str_nat_digits[of n] by simp_all
  have "is_digit (hd (str_nat n))"
    using ne all by (cases "str_nat n") simp_all
  then show "\<not> py_isspace (hd (str_nat n))" "hd (str_nat n) \<noteq> CHR ''-''"
    "hd (str_nat n) \<noteq> CHR ''+''"
    by (simp_all add: is_digit_plain)
  have "last (str_nat n) \<in> set (str_nat n)"
    using ne by simp
  then have "is_digit (last (str_nat n))"
    using all by (simp add: list_all_iff)
  then show "\<not> py_isspace (last (str_nat n))"
    by (simp add: is_digit_plain)
qed

lemma py_int_str_int: "py_int (str_int i) = Inr i"
proof (cases "i < 0")
  case False
  have ne: "str_nat (nat i) \<noteq> []" using str_nat_digits[of "nat i"] by simp
  have "py_strip (str_nat (nat i)) = str_nat (nat i)"
    using ne str_nat_ends(1,2)[of "nat i"] by (rule py_strip_plain)
  moreover obtain c cs where cs: "str_nat (nat i) = c # cs"
    using ne by (cases "str_nat (nat i)") auto
  moreover have "c \<noteq> CHR ''-''" "c \<noteq> CHR ''+''"
    using str_nat_ends(3,4)[of "nat i"] cs by simp_all
  moreover have "py_digits (c # cs) = Inr i"
    using py_digits_str_nat[of "nat i"] cs False by simp
  ultimately show ?thesis
    using False by (simp add: py_int_def str_int_def)
next
  case True
  let ?s = "CHR ''-'' # str_nat (nat (- i))"
  have ne: "str_nat (nat (- i)) \<noteq> []" using str_nat_digits[of "nat (- i)"] by simp
  have "\<not> py_isspace (CHR ''-'')" by (simp add: py_isspace_def)
  moreover have "last ?s = last (str_nat (nat (- i)))" using ne by simp
  ultimately have "py_strip ?s = ?s"
    using str_nat_ends(2)[of "nat (- i)"] by (intro py_strip_plain) simp_all
  moreover have "py_digits (str_nat (nat (- i))) = Inr (- i)"
    using py_digits_str_nat[of "nat (- i)"] True by simp
  ultimately show ?thesis
    using True by (simp add: py_int_def str_int_def)
qed

lemma str_int_no_underscore: "CHR ''_'' \<notin> set (str_int i)"
proof -
  have "CHR ''_'' \<notin> set (str_nat n)" for n
    using str_nat_digits[of n] is_digit_plain(4) by (auto simp: list_all_iff)
  then show ?thesis by (simp add: str_int_def)
qed

lemma split_sep_absent: "c \<notin> set xs \<Longrightarrow> split_sep c xs = [xs]"
  by (induction xs) auto

lemma split_sep_first:
  "c \<notin> set xs \<Longrightarrow> split_sep c (xs @ c # ys) = xs # split_sep c ys"
  by (induction xs) (auto split: list.splits)

lemma split_x_name: "split_sep CHR ''_'' (x_name i j) = [''x'', str_int i, str_int j]"
proof -
  have "split_sep CHR ''_'' (str_int i @ CHR ''_'' # str_int j) = [str_int i, str_int j]"
    using split_sep_first[OF str_int_no_underscore[of i], of "str_int j"]
      split_sep_absent[OF str_int_no_underscore[of j]] by simp
  moreover have "x_name i j = ''x'' @ CHR ''_'' # (str_int i @ CHR ''_'' # str_int j)"
    by (simp add: x_name_def)
  moreover have "CHR ''_'' \<notin> set ''x''" by simp
  ultimately show ?thesis
    using split_sep_first[of "CHR ''_''" "''x''" "str_int i @ CHR ''_'' # str_int j"] by simp
qed

lemma arc_indices_x_name: "arc_indices (x_name i j) = Inr (i, j)"
  by (simp add: arc_indices_def split_x_name py_int_str_int)

lemma split_node_name:
  "CHR ''_'' \<notin> set p \<Longrightarrow> split_sep CHR ''_'' (p @ CHR ''_'' # str_int i) = [p, str_int i]"
  using split_sep_first[of "CHR ''_''" p "str_int i"]
    split_sep_absent[OF str_int_no_underscore[of i]] by simp

lemma var_of_name_simps:
  "var_of_name (x_name i j) = Some (X i j)"
  "var_of_name (tao_name i) = Some (Tao i)"
  "var_of_name (u_name i) = Some (U i)"
  "var_of_name (y_name i) = Some (Y i)"
proof -
  show "var_of_name (x_name i j) = Some (X i j)"
    by (simp add: var_of_name_def split_x_name arc_indices_x_name)
  have "split_sep CHR ''_'' (tao_name i) = [''tao'', str_int i]"
    using split_node_name[of "''tao''" i] by (simp add: tao_name_def)
  then show "var_of_name (tao_name i) = Some (Tao i)"
    by (simp add: var_of_name_def py_int_str_int)
  have "split_sep CHR ''_'' (u_name i) = [''u'', str_int i]"
    using split_node_name[of "''u''" i] by (simp add: u_name_def)
  then show "var_of_name (u_name i) = Some (U i)"
    by (simp add: var_of_name_def py_int_str_int)
  have "split_sep CHR ''_'' (y_name i) = [''y'', str_int i]"
    using split_node_name[of "''y''" i] by (simp add: y_name_def)
  then show "var_of_name (y_name i) = Some (Y i)"
    by (simp add: var_of_name_def py_int_str_int)
qed

lemma value_of_simps:
  "value_of \<nu> (x_name i j) = \<nu> (X i j)"
  "value_of \<nu> (tao_name i) = \<nu> (Tao i)"
  "value_of \<nu> (u_name i) = \<nu> (U i)"
  "value_of \<nu> (y_name i) = \<nu> (Y i)"
  by (simp_all add: value_of_def var_of_name_simps)

lemma distinct_names:
  "distinct (map var_of_name names) \<Longrightarrow> distinct names"
  by (simp add: distinct_map)

section \<open>Finite floats\<close>

text \<open>
  Numbers of magnitude up to \<open>2 ^ 1023\<close> are finite floats. The distance of two points
  is the square root of the sum of the squared coordinate differences whenever it is
  computed without overflow; it does not depend on the order of the points, and the
  distance of a point to itself is 0.
\<close>

lemma float_max_large: "2 ^ 1023 \<le> float_max"
proof -
  have "(1::real) \<le> 2 - 1 / 2 ^ 52" by simp
  then have "1 * 2 ^ 1023 \<le> (2 - 1 / 2 ^ 52) * (2 ^ 1023 :: real)"
    by (rule mult_right_mono) simp
  then show ?thesis by (simp add: float_max_def)
qed

lemma finite_float_bound: "\<bar>x\<bar> \<le> 2 ^ 1023 \<Longrightarrow> finite_float x"
  using float_max_large by (simp add: finite_float_def)

lemma finite_float_0: "finite_float 0"
  by (rule finite_float_bound) simp

lemma fl_finite: "fl x = Some y \<longleftrightarrow> finite_float x \<and> y = x"
  by (auto simp: fl_def)

lemma finite_float_sqrt:
  assumes "0 \<le> x" "finite_float x"
  shows "finite_float (sqrt x)"
proof (cases "x \<le> 1")
  case True
  then have "sqrt x \<le> 1" using assms(1) by simp
  moreover have "(1::real) \<le> 2 ^ 1023" by (rule one_le_power) simp
  ultimately have "sqrt x \<le> 2 ^ 1023" by (rule order_trans)
  moreover have "\<bar>sqrt x\<bar> = sqrt x" using assms(1) by simp
  ultimately have "\<bar>sqrt x\<bar> \<le> 2 ^ 1023" by (rule ssubst[where P = "\<lambda>t. t \<le> 2 ^ 1023", rotated])
  then show ?thesis by (rule finite_float_bound)
next
  case False
  then have "sqrt x \<le> x"
    using real_sqrt_le_mono[of x "x\<^sup>2"] by (simp add: power2_eq_square)
  then show ?thesis
    using assms by (simp add: finite_float_def)
qed

lemma euclidean_distance_Some:
  assumes "euclidean_distance p q = Inr (Some d)"
  shows "d = sqrt ((fst q - fst p)\<^sup>2 + (snd q - snd p)\<^sup>2)" and "finite_float d"
proof -
  from assms obtain sx sy where
    sx: "py_square (fl_sub (Some (fst q)) (Some (fst p))) = Inr sx"
    and sy: "py_square (fl_sub (Some (snd q)) (Some (snd p))) = Inr sy"
    and d: "fl_sqrt (fl_add sx sy) = Some d"
    by (auto simp: euclidean_distance_def split: sum.splits)
  from d obtain t where t: "fl_add sx sy = Some t" and dt: "d = sqrt t"
    by (auto simp: fl_sqrt_def split: option.splits)
  from t obtain a b where ab: "sx = Some a" "sy = Some b" and fin: "finite_float (a + b)"
    and tab: "t = a + b"
    by (auto simp: fl_add_def fl_finite split: option.splits)
  have a: "a = (fst q - fst p)\<^sup>2"
    using sx ab(1)
    by (auto simp: py_square_def fl_sub_def fl_def split: option.splits if_splits)
  have b: "b = (snd q - snd p)\<^sup>2"
    using sy ab(2)
    by (auto simp: py_square_def fl_sub_def fl_def split: option.splits if_splits)
  show "d = sqrt ((fst q - fst p)\<^sup>2 + (snd q - snd p)\<^sup>2)"
    using dt tab a b by simp
  have "0 \<le> a + b" using a b by simp
  then show "finite_float d"
    unfolding dt tab using fin by (rule finite_float_sqrt)
qed

lemma py_square_neg: "py_square (fl_sub (Some a) (Some b)) = py_square (fl_sub (Some b) (Some a))"
proof -
  have "\<bar>a - b\<bar> = \<bar>b - a\<bar>" by simp
  moreover have "(a - b)\<^sup>2 = (b - a)\<^sup>2" by (simp add: power2_commute)
  ultimately show ?thesis
    by (simp add: py_square_def fl_sub_def fl_def finite_float_def)
qed

lemma euclidean_distance_commute: "euclidean_distance p q = euclidean_distance q p"
  unfolding euclidean_distance_def
  by (subst py_square_neg[of "fst q" "fst p"], subst py_square_neg[of "snd q" "snd p"], rule refl)

lemma euclidean_distance_self: "euclidean_distance p p = Inr (Some 0)"
  by (simp add: euclidean_distance_def py_square_def fl_sub_def fl_add_def fl_sqrt_def fl_def
      finite_float_0)

lemma fl_round_trip:
  "finite_float x \<Longrightarrow> fl_mul (fl_add (Some x) (Some 0)) (Some 1) = Some x"
  "finite_float x \<Longrightarrow> fl_mul (fl_add (Some 0) (Some x)) (Some 1) = Some x"
  "fl_mul (fl_add None (Some 0)) (Some 1) = None"
  "fl_mul (fl_add (Some 0) None) (Some 1) = None"
  by (simp_all add: fl_mul_def fl_add_def fl_def)

section \<open>The distance matrix\<close>

text \<open>
  When no distance raises, the two loops fill the upper triangle with the distances and
  leave the rest of the matrix zero; adding the transpose gives the distance of the nodes
  \<open>a\<close> and \<open>b\<close> at \<open>[a][b]\<close> for all \<open>a\<close> and \<open>b\<close>. When all coordinates have magnitude
  at most \<open>2 ^ 100\<close> no distance raises.
\<close>

lemma square_m_row: "square_m n m \<Longrightarrow> a < n \<Longrightarrow> length (m ! a) = n"
  by (simp add: square_m_def list_all_length)

lemma square_m_zeros: "square_m n (zeros n)"
  by (simp add: square_m_def zeros_def list_all_length)

lemma square_m_set_entry: "square_m n m \<Longrightarrow> square_m n (set_entry m i j x)"
  by (cases "i < length m")
     (auto simp: square_m_def set_entry_def list_all_length nth_list_update)

lemma set_entry_nth:
  "square_m n m \<Longrightarrow> i < n \<Longrightarrow> j < n \<Longrightarrow> a < n \<Longrightarrow> b < n \<Longrightarrow>
     set_entry m i j x ! a ! b = (if a = i \<and> b = j then x else m ! a ! b)"
  by (auto simp: set_entry_def square_m_def list_all_length nth_list_update)

lemma fill_row_Inr:
  assumes "fill_row nodes i js m = Inr m'" "square_m n m" "i < n" "list_all (\<lambda>j. j < n) js"
  shows "square_m n m'"
    and "a < n \<Longrightarrow> b < n \<Longrightarrow> a = i \<and> b \<in> set js \<Longrightarrow>
           euclidean_distance (Position (nodes ! a)) (Position (nodes ! b)) = Inr (m' ! a ! b)"
    and "a < n \<Longrightarrow> b < n \<Longrightarrow> \<not> (a = i \<and> b \<in> set js) \<Longrightarrow> m' ! a ! b = m ! a ! b"
  using assms
proof (induction js arbitrary: m)
  case Nil
  { case 1 then show ?case by simp }
  { case 2 then show ?case by simp }
  { case 3 then show ?case by simp }
next
  case (Cons j js)
  { case 1
    from 1(1) obtain d where
      d: "euclidean_distance (Position (nodes ! i)) (Position (nodes ! j)) = Inr d"
      and r: "fill_row nodes i js (set_entry m i j d) = Inr m'"
      by (auto split: sum.splits)
    from Cons.IH(1)[OF r square_m_set_entry[OF 1(2)] 1(3)] 1(4)
    show ?case by simp }
  { case 2
    from 2(4) obtain d where
      d: "euclidean_distance (Position (nodes ! i)) (Position (nodes ! j)) = Inr d"
      and r: "fill_row nodes i js (set_entry m i j d) = Inr m'"
      by (auto split: sum.splits)
    have js: "list_all (\<lambda>j. j < n) js" and j: "j < n" using 2(7) by simp_all
    note sq = square_m_set_entry[OF 2(5), of i j d]
    show ?case
    proof (cases "b \<in> set js")
      case True
      with Cons.IH(2)[OF 2(1,2) _ r sq 2(6) js] 2(3) show ?thesis by simp
    next
      case False
      then have bj: "b = j" using 2(3) by simp
      have "m' ! a ! b = set_entry m i j d ! a ! b"
        using Cons.IH(3)[OF 2(1,2) _ r sq 2(6) js] False by simp
      also have "\<dots> = d"
        using set_entry_nth[OF 2(5) 2(6) j 2(1,2)] 2(3) bj by simp
      finally show ?thesis using d 2(3) bj by simp
    qed }
  { case 3
    from 3(4) obtain d where
      d: "euclidean_distance (Position (nodes ! i)) (Position (nodes ! j)) = Inr d"
      and r: "fill_row nodes i js (set_entry m i j d) = Inr m'"
      by (auto split: sum.splits)
    have js: "list_all (\<lambda>j. j < n) js" and j: "j < n" using 3(7) by simp_all
    note sq = square_m_set_entry[OF 3(5), of i j d]
    have "m' ! a ! b = set_entry m i j d ! a ! b"
      using Cons.IH(3)[OF 3(1,2) _ r sq 3(6) js] 3(3) by simp
    also have "\<dots> = m ! a ! b"
      using set_entry_nth[OF 3(5) 3(6) j 3(1,2)] 3(3) by auto
    finally show ?case . }
qed

lemma fill_upper_Inr:
  assumes "fill_upper nodes rows m = Inr m'" "square_m (length nodes) m"
    "list_all (\<lambda>i. i < length nodes) rows"
  shows "square_m (length nodes) m'"
    and "a < length nodes \<Longrightarrow> b < length nodes \<Longrightarrow> a \<in> set rows \<and> a \<le> b \<Longrightarrow>
           euclidean_distance (Position (nodes ! a)) (Position (nodes ! b)) = Inr (m' ! a ! b)"
    and "a < length nodes \<Longrightarrow> b < length nodes \<Longrightarrow> \<not> (a \<in> set rows \<and> a \<le> b) \<Longrightarrow>
           m' ! a ! b = m ! a ! b"
  using assms
proof (induction rows arbitrary: m)
  case Nil
  { case 1 then show ?case by simp }
  { case 2 then show ?case by simp }
  { case 3 then show ?case by simp }
next
  case (Cons i rows)
  have cols: "list_all (\<lambda>j. j < length nodes) [i..<length nodes]"
    by (simp add: list_all_iff)
  { case 1
    from 1(1) obtain m1 where
      m1: "fill_row nodes i [i..<length nodes] m = Inr m1"
      and r: "fill_upper nodes rows m1 = Inr m'"
      by (auto split: sum.splits)
    have i: "i < length nodes" using 1(3) by simp
    from Cons.IH(1)[OF r fill_row_Inr(1)[OF m1 1(2) i cols]] 1(3)
    show ?case by simp }
  { case 2
    from 2(4) obtain m1 where
      m1: "fill_row nodes i [i..<length nodes] m = Inr m1"
      and r: "fill_upper nodes rows m1 = Inr m'"
      by (auto split: sum.splits)
    have i: "i < length nodes" and rows: "list_all (\<lambda>i. i < length nodes) rows"
      using 2(6) by simp_all
    note sq = fill_row_Inr(1)[OF m1 2(5) i cols]
    show ?case
    proof (cases "a \<in> set rows")
      case True
      with Cons.IH(2)[OF 2(1,2) _ r sq rows] 2(3) show ?thesis by simp
    next
      case False
      then have ai: "a = i" using 2(3) by simp
      have "m' ! a ! b = m1 ! a ! b"
        using Cons.IH(3)[OF 2(1,2) _ r sq rows] False by simp
      moreover have "euclidean_distance (Position (nodes ! a)) (Position (nodes ! b))
          = Inr (m1 ! a ! b)"
        using fill_row_Inr(2)[OF m1 2(5) i cols 2(1,2)] 2(2,3) ai by simp
      ultimately show ?thesis by simp
    qed }
  { case 3
    from 3(4) obtain m1 where
      m1: "fill_row nodes i [i..<length nodes] m = Inr m1"
      and r: "fill_upper nodes rows m1 = Inr m'"
      by (auto split: sum.splits)
    have i: "i < length nodes" and rows: "list_all (\<lambda>i. i < length nodes) rows"
      using 3(6) by simp_all
    note sq = fill_row_Inr(1)[OF m1 3(5) i cols]
    have "m' ! a ! b = m1 ! a ! b"
      using Cons.IH(3)[OF 3(1,2) _ r sq rows] 3(3) by auto
    also have "\<dots> = m ! a ! b"
      using fill_row_Inr(3)[OF m1 3(5) i cols 3(1,2)] 3(2,3) by auto
    finally show ?case . }
qed

lemma fl_double_entry:
  assumes "euclidean_distance p q = Inr d"
  shows "fl_mul (fl_add d (Some 0)) (Some 1) = d" and "fl_mul (fl_add (Some 0) d) (Some 1) = d"
proof -
  have "finite_float x" if "d = Some x" for x
    using euclidean_distance_Some(2)[of p q x] assms that by simp
  then show "fl_mul (fl_add d (Some 0)) (Some 1) = d"
    and "fl_mul (fl_add (Some 0) d) (Some 1) = d"
    by (cases d; simp add: fl_round_trip)+
qed

lemma generate_distance_matrix_Inr:
  assumes "generate_distance_matrix nodes = Inr m"
  shows "square_m (length nodes) m"
    and "a < length nodes \<Longrightarrow> b < length nodes \<Longrightarrow>
           euclidean_distance (Position (nodes ! a)) (Position (nodes ! b)) = Inr (m ! a ! b)"
proof -
  from assms obtain u where
    u: "fill_upper nodes [0..<length nodes] (zeros (length nodes)) = Inr u"
    and m: "m = map (map (\<lambda>x. fl_mul x (Some 1))) (add_m u (transpose_m u))"
    by (auto simp: generate_distance_matrix_def split: sum.splits)
  have rows: "list_all (\<lambda>i. i < length nodes) [0..<length nodes]"
    by (simp add: list_all_iff)
  note fu = fill_upper_Inr[OF u square_m_zeros rows]
  have len: "length u = length nodes"
    using fu(1) by (simp add: square_m_def)
  have row: "length (u ! k) = length nodes" if "k < length nodes" for k
    using fu(1) that by (rule square_m_row)
  show "square_m (length nodes) m"
    unfolding m using len row
    by (simp add: add_m_def transpose_m_def square_m_def list_all_length)
  show "euclidean_distance (Position (nodes ! a)) (Position (nodes ! b)) = Inr (m ! a ! b)"
    if a: "a < length nodes" and b: "b < length nodes"
  proof -
    have entry: "m ! a ! b = fl_mul (fl_add (u ! a ! b) (u ! b ! a)) (Some 1)"
      unfolding m using a b len row[OF a]
      by (simp add: add_m_def transpose_m_def)
    have z: "zeros (length nodes) ! x ! y = Some 0" if "x < length nodes" "y < length nodes" for x y
      using that by (simp add: zeros_def)
    consider "a < b" | "a = b" | "b < a" by linarith
    then show ?thesis
    proof cases
      case 1
      have d: "euclidean_distance (Position (nodes ! a)) (Position (nodes ! b)) = Inr (u ! a ! b)"
        using fu(2)[OF a b] 1 a by simp
      have "u ! b ! a = Some 0"
        using fu(3)[OF b a] 1 z[OF b a] by simp
      then show ?thesis
        using entry d fl_double_entry(1)[OF d] by simp
    next
      case 2
      have d: "euclidean_distance (Position (nodes ! a)) (Position (nodes ! a)) = Inr (u ! a ! a)"
        using fu(2)[OF a a] a by simp
      then have "u ! a ! a = Some 0"
        by (simp add: euclidean_distance_self)
      then show ?thesis
        using entry 2 by (simp add: euclidean_distance_self fl_round_trip(1)[OF finite_float_0])
    next
      case 3
      have d: "euclidean_distance (Position (nodes ! b)) (Position (nodes ! a)) = Inr (u ! b ! a)"
        using fu(2)[OF b a] 3 b by simp
      have "u ! a ! b = Some 0"
        using fu(3)[OF a b] 3 z[OF a b] by simp
      then show ?thesis
        using entry d fl_double_entry(2)[OF d]
        by (simp add: euclidean_distance_commute[of "Position (nodes ! a)"])
    qed
  qed
qed

lemma fill_row_succeeds:
  assumes "list_all (\<lambda>j. \<not> isl (euclidean_distance (Position (nodes ! i)) (Position (nodes ! j)))) js"
  shows "\<not> isl (fill_row nodes i js m)"
  using assms by (induction js arbitrary: m) (auto split: sum.splits)

lemma fill_upper_succeeds:
  assumes "list_all (\<lambda>i. list_all (\<lambda>j. \<not> isl (euclidean_distance (Position (nodes ! i))
             (Position (nodes ! j)))) [i..<length nodes]) rows"
  shows "\<not> isl (fill_upper nodes rows m)"
  using assms
proof (induction rows arbitrary: m)
  case Nil
  then show ?case by simp
next
  case (Cons i rows)
  have "\<not> isl (fill_row nodes i [i..<length nodes] m)"
    using Cons.prems by (intro fill_row_succeeds) simp
  then obtain m1 where "fill_row nodes i [i..<length nodes] m = Inr m1"
    by (cases "fill_row nodes i [i..<length nodes] m") auto
  then show ?case
    using Cons.IH[of m1] Cons.prems by simp
qed

lemma generate_distance_matrix_succeeds:
  assumes "\<And>a b. a < length nodes \<Longrightarrow> b < length nodes \<Longrightarrow>
             \<not> isl (euclidean_distance (Position (nodes ! a)) (Position (nodes ! b)))"
  shows "\<exists>m. generate_distance_matrix nodes = Inr m"
proof -
  have "list_all (\<lambda>i. list_all (\<lambda>j. \<not> isl (euclidean_distance (Position (nodes ! i))
             (Position (nodes ! j)))) [i..<length nodes]) [0..<length nodes]"
    using assms by (simp add: list_all_iff)
  then have "\<not> isl (fill_upper nodes [0..<length nodes] (zeros (length nodes)))"
    by (rule fill_upper_succeeds)
  then obtain u where "fill_upper nodes [0..<length nodes] (zeros (length nodes)) = Inr u"
    by (cases "fill_upper nodes [0..<length nodes] (zeros (length nodes))") auto
  then show ?thesis
    by (simp add: generate_distance_matrix_def)
qed

lemma moderate_finite:
  "\<bar>x\<bar> \<le> 2 ^ 300 \<Longrightarrow> finite_float x"
proof -
  assume "\<bar>x\<bar> \<le> 2 ^ 300"
  moreover have "(2::real) ^ 300 \<le> 2 ^ 1023" by (rule power_increasing) simp_all
  ultimately have "\<bar>x\<bar> \<le> 2 ^ 1023" by (rule order_trans)
  then show ?thesis by (rule finite_float_bound)
qed

lemma moderate_distance:
  assumes "moderate (fst p)" "moderate (snd p)" "moderate (fst q)" "moderate (snd q)"
  shows "\<exists>d. euclidean_distance p q = Inr (Some d) \<and> 0 \<le> d \<and> d \<le> 2 ^ 102"
proof -
  define dx where "dx = fst q - fst p"
  define dy where "dy = snd q - snd p"
  have bdx: "\<bar>dx\<bar> \<le> 2 ^ 101" and bdy: "\<bar>dy\<bar> \<le> 2 ^ 101"
    using assms by (simp_all add: moderate_def dx_def dy_def)
  have sx: "dx\<^sup>2 \<le> 2 ^ 202"
    using bdx abs_le_square_iff[of dx "2 ^ 101"] by (simp add: power_even_eq)
  have sy: "dy\<^sup>2 \<le> 2 ^ 202"
    using bdy abs_le_square_iff[of dy "2 ^ 101"] by (simp add: power_even_eq)
  have fdx: "finite_float dx" using bdx by (intro moderate_finite) simp
  have fdy: "finite_float dy" using bdy by (intro moderate_finite) simp
  have fsx: "finite_float (dx\<^sup>2)" using sx by (intro moderate_finite) simp
  have fsy: "finite_float (dy\<^sup>2)" using sy by (intro moderate_finite) simp
  have fs: "finite_float (dx\<^sup>2 + dy\<^sup>2)" using sx sy by (intro moderate_finite) simp
  have e: "euclidean_distance p q = Inr (Some (sqrt (dx\<^sup>2 + dy\<^sup>2)))"
    using fdx fdy fsx fsy fs
    by (simp add: euclidean_distance_def py_square_def fl_sub_def fl_add_def fl_sqrt_def fl_def
        dx_def dy_def)
  have "sqrt (dx\<^sup>2 + dy\<^sup>2) \<le> \<bar>dx\<bar> + \<bar>dy\<bar>"
    by (rule sqrt_sum_squares_le_sum_abs)
  then have "sqrt (dx\<^sup>2 + dy\<^sup>2) \<le> 2 ^ 102" using bdx bdy by simp
  then show ?thesis using e by simp
qed

lemma moderate_matrix:
  assumes "list_all moderate_node nodes"
  shows "\<exists>m. generate_distance_matrix nodes = Inr m"
proof (rule generate_distance_matrix_succeeds)
  fix a b
  assume "a < length nodes" "b < length nodes"
  then have "moderate_node (nodes ! a)" "moderate_node (nodes ! b)"
    using assms by (simp_all add: list_all_length)
  then show "\<not> isl (euclidean_distance (Position (nodes ! a)) (Position (nodes ! b)))"
    using moderate_distance[of "Position (nodes ! a)" "Position (nodes ! b)"]
    by (auto simp: moderate_node_def)
qed

lemma ex_moderate:
  "list_all moderate_node [ex_depot]" "list_all moderate_node [ex_depot, ex_depot2]"
  "list_all moderate_node [ex_customer]" "list_all moderate_node [ex_station]"
  "list_all moderate_node [ex_depot, ex_customer]"
  "moderate_parameters ex_parameters" "moderate 1000"
  by (simp_all add: moderate_node_def moderate_def moderate_parameters_def ex_depot_def
      ex_depot2_def ex_customer_def ex_station_def ex_parameters_def)

text \<open>
  Claim C8. For every list of nodes, the distance matrix that \<open>generate_distance_matrix\<close>
  produces is symmetric and its diagonal is zero: for all indices \<open>i\<close> and \<open>j\<close> of the
  node list, entry \<open>[i][j]\<close> equals entry \<open>[j][i]\<close>, and entry \<open>[i][i]\<close> is 0. (No
  matrix is produced when a squared coordinate difference overflows: the function raises.
  An entry that is not a finite number is an infinity, the sum of two finite squares
  being too large, and is the same at \<open>[i][j]\<close> and \<open>[j][i]\<close>.)
\<close>

theorem distance_matrix_symmetric_zero_diagonal:
  assumes "generate_distance_matrix nodes = Inr m" and "i < length nodes" and "j < length nodes"
  shows "m ! i ! j = m ! j ! i \<and> m ! i ! i = Some 0"
proof -
  have "Inr (m ! i ! j) = euclidean_distance (Position (nodes ! i)) (Position (nodes ! j))"
    using generate_distance_matrix_Inr(2)[OF assms(1) assms(2) assms(3)] by simp
  also have "\<dots> = euclidean_distance (Position (nodes ! j)) (Position (nodes ! i))"
    by (rule euclidean_distance_commute)
  also have "\<dots> = Inr (m ! j ! i)"
    by (rule generate_distance_matrix_Inr(2)[OF assms(1) assms(3) assms(2)])
  finally have "m ! i ! j = m ! j ! i" by simp
  moreover have "m ! i ! i = Some 0"
    using generate_distance_matrix_Inr(2)[OF assms(1) assms(2) assms(2)]
    by (simp add: euclidean_distance_self)
  ultimately show ?thesis by simp
qed

theorem distance_matrix_symmetric_zero_diagonal_witness:
  "\<exists>m. generate_distance_matrix [ex_depot, ex_customer] = Inr m
      \<and> (0::nat) < length [ex_depot, ex_customer] \<and> (1::nat) < length [ex_depot, ex_customer]
      \<and> m ! 0 ! 1 = m ! 1 ! 0 \<and> m ! 0 ! 0 = Some 0"
proof -
  obtain m where m: "generate_distance_matrix [ex_depot, ex_customer] = Inr m"
    using moderate_matrix[OF ex_moderate(5)] by blast
  have i: "(0::nat) < length [ex_depot, ex_customer]"
    and j: "(1::nat) < length [ex_depot, ex_customer]" by simp_all
  from distance_matrix_symmetric_zero_diagonal[OF m i j] m i j show ?thesis by blast
qed

section \<open>The layout of the graph\<close>

text \<open>
  The fields of a graph that the constructor returned, and when it returns: the five
  vehicle parameters are present and the distance matrix is computed without overflow.
\<close>

lemma Graph_init_fields:
  assumes "Graph_EVRP_TW_init ds cs rs params R = Inr gr"
  shows "Nodes gr = ds @ cs @ py_repeat rs R @ ds"
    and "Depot_Idx gr = [0, int (length (Nodes gr)) - 1]"
    and "Customer_Idx gr = py_range 1 (1 + int (length cs))"
    and "RS_Idx gr = py_range (1 + int (length cs)) (int (length (Nodes gr)) - 1)"
    and "generate_distance_matrix (Nodes gr) = Inr (distance_matrix gr)"
    and "CustomerTW gr = map Window (Nodes gr)"
    and "CustomerServiceTime gr = map ServiceTime (Nodes gr)"
    and "CustomerDemand gr = map Demand (Nodes gr)"
    and "travel_time_matrix gr = map (map (\<lambda>x. fl_div x (g_v gr))) (distance_matrix gr)"
    and "params ''Q'' = Some (g_Q gr)" and "params ''C'' = Some (g_C gr)"
    and "params ''r'' = Some (g_r gr)" and "params ''g'' = Some (g_g gr)"
    and "params ''v'' = Some (g_v gr)"
  using assms
  by (auto simp: Graph_EVRP_TW_init_def Let_def py_lookup_def split: sum.splits option.splits)

lemma Graph_init_succeeds:
  assumes "{''Q'', ''C'', ''r'', ''g'', ''v''} \<subseteq> dom params"
    and "\<exists>m. generate_distance_matrix (ds @ cs @ py_repeat rs R @ ds) = Inr m"
  shows "\<exists>gr. Graph_EVRP_TW_init ds cs rs params R = Inr gr"
  using assms
  by (auto simp: Graph_EVRP_TW_init_def Let_def py_lookup_def split: sum.splits option.splits)

lemma length_py_repeat: "0 \<le> k \<Longrightarrow> int (length (py_repeat xs k)) = int (length xs) * k"
  by (simp add: py_repeat_def length_concat sum_list_replicate)

lemma moderate_nodes_built:
  assumes "list_all moderate_node ds" "list_all moderate_node cs" "list_all moderate_node rs"
  shows "list_all moderate_node (ds @ cs @ py_repeat rs R @ ds)"
  using assms by (auto simp: py_repeat_def list_all_iff)

lemma moderate_graph:
  assumes "list_all moderate_node ds" "list_all moderate_node cs" "list_all moderate_node rs"
    and "moderate_parameters params"
  shows "\<exists>gr. Graph_EVRP_TW_init ds cs rs params R = Inr gr"
proof (rule Graph_init_succeeds)
  show "{''Q'', ''C'', ''r'', ''g'', ''v''} \<subseteq> dom params"
    using assms(4) by (auto simp: moderate_parameters_def split: option.splits)
  show "\<exists>m. generate_distance_matrix (ds @ cs @ py_repeat rs R @ ds) = Inr m"
    using moderate_nodes_built[OF assms(1-3)] by (rule moderate_matrix)
qed

text \<open>
  Claim C7. With exactly one depot node and a replication factor \<open>R\<close> (a count, so not
  negative) the node sequence is the depot, the customers, the stations repeated \<open>R\<close>
  times and the depot again; its length is 2 + the number of customers + the number of
  stations times \<open>R\<close>; the depot indices are 0 and the last index, the customer indices
  are 1 up to the number of customers, and the station indices follow them up to the
  last index but one, one for every replica.
\<close>

theorem graph_node_layout:
  assumes "Graph_EVRP_TW_init [depot] customer_nodes rs_nodes params R = Inr gr"
    and "0 \<le> R"
  shows "Nodes gr = [depot] @ customer_nodes @ concat (replicate (nat R) rs_nodes) @ [depot]
       \<and> int (length (Nodes gr)) = 2 + int (length customer_nodes) + int (length rs_nodes) * R
       \<and> Depot_Idx gr = [0, int (length (Nodes gr)) - 1]
       \<and> Customer_Idx gr = [1 .. int (length customer_nodes)]
       \<and> RS_Idx gr = [1 + int (length customer_nodes) .. int (length (Nodes gr)) - 2]
       \<and> length (RS_Idx gr) = length rs_nodes * nat R"
proof -
  note f = Graph_init_fields[OF assms(1)]
  have nodes: "Nodes gr = [depot] @ customer_nodes @ concat (replicate (nat R) rs_nodes) @ [depot]"
    using f(1) by (simp add: py_repeat_def)
  have len: "int (length (Nodes gr)) = 2 + int (length customer_nodes) + int (length rs_nodes) * R"
    using f(1) length_py_repeat[OF assms(2), of rs_nodes] by simp
  have cust: "Customer_Idx gr = [1 .. int (length customer_nodes)]"
    using f(3) by (simp add: py_range_def)
  have rs: "RS_Idx gr = [1 + int (length customer_nodes) .. int (length (Nodes gr)) - 2]"
    using f(4) by (simp add: py_range_def)
  have "length (RS_Idx gr) = nat (int (length rs_nodes) * R)"
    unfolding rs len by simp
  then have rslen: "length (RS_Idx gr) = length rs_nodes * nat R"
    using assms(2) by (simp add: nat_mult_distrib)
  show ?thesis
    using nodes len f(2) cust rs rslen by blast
qed

theorem graph_node_layout_witness:
  "(0::int) \<le> 2
   \<and> (\<exists>gr. Graph_EVRP_TW_init [ex_depot] [ex_customer] [ex_station] ex_parameters 2 = Inr gr
        \<and> Nodes gr = [ex_depot, ex_customer, ex_station, ex_station, ex_depot]
        \<and> length (Nodes gr) = 5
        \<and> Depot_Idx gr = [0, 4]
        \<and> Customer_Idx gr = [1]
        \<and> RS_Idx gr = [2, 3])"
proof -
  obtain gr where g: "Graph_EVRP_TW_init [ex_depot] [ex_customer] [ex_station] ex_parameters 2 = Inr gr"
    using moderate_graph[OF ex_moderate(1,3,4,6)] by blast
  have r: "(0::int) \<le> 2" by simp
  note t = graph_node_layout[OF g r]
  have n: "Nodes gr = [ex_depot, ex_customer, ex_station, ex_station, ex_depot]"
    using t by (simp add: numeral_2_eq_2)
  then have len: "length (Nodes gr) = 5"
    by simp
  have di: "Depot_Idx gr = [0, 4]"
    using t len by simp
  have ci: "Customer_Idx gr = [1]"
    using t by (simp add: upto.simps)
  have ri: "RS_Idx gr = [2, 3]"
    using t len by (simp add: upto.simps)
  note n len di ci ri
  with g r show ?thesis by blast
qed

section \<open>The constraints generated for a graph\<close>

text \<open>
  The graphs considered are those built by \<open>Graph_EVRP_TW_init\<close> from a list of depots
  that is not empty. On such a graph every index the formulator uses is an index of the
  node sequence. Whenever a family of constraints is generated without an exception, its
  rows are, pair by pair and in order, the rows for the arcs \<open>(i, j)\<close>, \<open>i \<noteq> j\<close>, of
  its origins and the successors, and each row is determined by the graph: its
  coefficients are those of the specification, with the exact distance of the two nodes
  and the travel time distance / \<open>v\<close>.
\<close>

lemma py_get_in_range:
  "0 \<le> i \<Longrightarrow> i < int (length xs) \<Longrightarrow> py_get xs i = Inr (xs ! nat i)"
  by (simp add: py_get_def Let_def)

lemma py_get2_in_range:
  assumes "square_m n m" "0 \<le> i" "i < int n" "0 \<le> j" "j < int n"
  shows "py_get2 m i j = Inr (m ! nat i ! nat j)"
proof -
  have "length m = n" using assms(1) by (simp add: square_m_def)
  moreover have "length (m ! nat i) = n"
    using assms(1) by (rule square_m_row) (use assms(2,3) in simp)
  ultimately show ?thesis
    using assms(2-5) by (simp add: py_get2_def py_get_in_range)
qed

lemma for_each_Inr:
  "list_all (\<lambda>x. body x = Inr (f x)) xs \<Longrightarrow> for_each xs body = Inr (concat (map f xs))"
  by (induction xs) simp_all

lemma pair_loop_Inr:
  assumes "\<And>i j. i \<in> set origins \<Longrightarrow> j \<in> set successors \<Longrightarrow> i \<noteq> j \<Longrightarrow> row i j = Inr (f i j)"
  shows "pair_loop origins successors row =
           Inr (concat (map (\<lambda>i. map (f i) (filter (\<lambda>j. i \<noteq> j) successors)) origins))"
proof -
  have inner: "for_each successors
         (\<lambda>j. if i \<noteq> j then (case row i j of Inl e \<Rightarrow> Inl e | Inr c \<Rightarrow> Inr [c]) else Inr [])
       = Inr (map (f i) (filter (\<lambda>j. i \<noteq> j) successors))" if "i \<in> set origins" for i
  proof -
    have "list_all (\<lambda>j. (if i \<noteq> j then (case row i j of Inl e \<Rightarrow> Inl e | Inr c \<Rightarrow> Inr [c]) else Inr [])
             = Inr (if i \<noteq> j then [f i j] else [])) successors"
      using assms[OF that] by (simp add: list_all_iff)
    from for_each_Inr[OF this]
    have "for_each successors
         (\<lambda>j. if i \<noteq> j then (case row i j of Inl e \<Rightarrow> Inl e | Inr c \<Rightarrow> Inr [c]) else Inr [])
       = Inr (concat (map (\<lambda>j. if i \<noteq> j then [f i j] else []) successors))" .
    moreover have "concat (map (\<lambda>j. if i \<noteq> j then [f i j] else []) js)
        = map (f i) (filter (\<lambda>j. i \<noteq> j) js)" for js
      by (induction js) simp_all
    ultimately show ?thesis by simp
  qed
  have "list_all (\<lambda>i. for_each successors
         (\<lambda>j. if i \<noteq> j then (case row i j of Inl e \<Rightarrow> Inl e | Inr c \<Rightarrow> Inr [c]) else Inr [])
       = Inr (map (f i) (filter (\<lambda>j. i \<noteq> j) successors))) origins"
    using inner by (simp add: list_all_iff)
  from for_each_Inr[OF this] show ?thesis
    by (simp add: pair_loop_def)
qed

lemma list_all2_spec_arcs:
  assumes "\<And>i j. i \<in> set origins \<Longrightarrow> j \<in> set successors \<Longrightarrow> i \<noteq> j \<Longrightarrow> P (f i j) (i, j)"
  shows "list_all2 P (concat (map (\<lambda>i. map (f i) (filter (\<lambda>j. i \<noteq> j) successors)) origins))
           (spec_arcs origins successors)"
  using assms
proof (induction origins)
  case Nil
  then show ?case by (simp add: spec_arcs_def)
next
  case (Cons i origins)
  have "list_all2 P (map (f i) (filter (\<lambda>j. i \<noteq> j) successors))
          (map (Pair i) (filter (\<lambda>j. i \<noteq> j) successors))"
    using Cons.prems by (simp add: list_all2_map1 list_all2_map2 list_all2_same)
  moreover have "list_all2 P
      (concat (map (\<lambda>i. map (f i) (filter (\<lambda>j. i \<noteq> j) successors)) origins))
      (spec_arcs origins successors)"
    using Cons by simp
  ultimately show ?case
    by (simp add: spec_arcs_def list_all2_appendI)
qed

lemma built_graph_size:
  assumes "Graph_EVRP_TW_init ds cs rs params R = Inr gr" "ds \<noteq> []"
  shows "int (length cs) + 2 \<le> int (length (Nodes gr))"
proof -
  have "1 \<le> length ds" using assms(2) by (cases ds) simp_all
  then show ?thesis
    using Graph_init_fields(1)[OF assms(1)] by simp
qed

lemma built_graph_indices:
  assumes "Graph_EVRP_TW_init ds cs rs params R = Inr gr"
  shows "Customer_Idx gr = [1..int (length cs)]"
    and "RS_Idx gr = [1 + int (length cs)..int (length (Nodes gr)) - 2]"
  using Graph_init_fields(3,4)[OF assms] by (simp_all add: py_range_def)

lemma built_graph_successors:
  assumes "Graph_EVRP_TW_init ds cs rs params R = Inr gr" "ds \<noteq> []"
  shows "distinct (spec_successors gr)"
    and "i \<in> set (spec_successors gr) \<Longrightarrow> 0 \<le> i \<and> i < int (length (Nodes gr))"
    and "set (Customer_Idx gr) \<subseteq> set (spec_successors gr)"
    and "set (RS_Idx gr) \<subseteq> set (spec_successors gr)"
  using built_graph_size[OF assms] built_graph_indices[OF assms(1)]
  by (auto simp: spec_successors_def)

lemma built_graph_predecessors:
  assumes "Graph_EVRP_TW_init ds cs rs params R = Inr gr" "ds \<noteq> []"
  shows "distinct (spec_predecessors gr)"
    and "i \<in> set (spec_predecessors gr) \<Longrightarrow> 0 \<le> i \<and> i < int (length (Nodes gr))"
    and "set (Customer_Idx gr) \<subseteq> set (spec_predecessors gr)"
    and "set (RS_Idx gr) \<subseteq> set (spec_predecessors gr)"
  using built_graph_size[OF assms] built_graph_indices[OF assms(1)]
  by (auto simp: spec_predecessors_def)

lemma built_graph_matrices:
  assumes "Graph_EVRP_TW_init ds cs rs params R = Inr gr"
  shows "square_m (length (Nodes gr)) (distance_matrix gr)"
    and "square_m (length (Nodes gr)) (travel_time_matrix gr)"
    and "a < length (Nodes gr) \<Longrightarrow> b < length (Nodes gr) \<Longrightarrow>
           travel_time_matrix gr ! a ! b = fl_div (distance_matrix gr ! a ! b) (g_v gr)"
    and "a < length (Nodes gr) \<Longrightarrow> b < length (Nodes gr) \<Longrightarrow>
           distance_matrix gr ! a ! b = Some d \<Longrightarrow> d = spec_distance gr (int a) (int b)"
proof -
  note f = Graph_init_fields[OF assms]
  note gm = generate_distance_matrix_Inr[OF f(5)]
  show sq: "square_m (length (Nodes gr)) (distance_matrix gr)"
    by (rule gm(1))
  then show "square_m (length (Nodes gr)) (travel_time_matrix gr)"
    unfolding f(9) by (simp add: square_m_def list_all_length)
  show "travel_time_matrix gr ! a ! b = fl_div (distance_matrix gr ! a ! b) (g_v gr)"
    if "a < length (Nodes gr)" "b < length (Nodes gr)"
  proof -
    have "length (distance_matrix gr) = length (Nodes gr)"
      using sq by (simp add: square_m_def)
    moreover have "length (distance_matrix gr ! a) = length (Nodes gr)"
      using sq that(1) by (rule square_m_row)
    ultimately show ?thesis
      by (subst f(9)) (use that in simp)
  qed
  show "d = spec_distance gr (int a) (int b)"
    if "a < length (Nodes gr)" "b < length (Nodes gr)" "distance_matrix gr ! a ! b = Some d"
    using euclidean_distance_Some(1)[of "Position (Nodes gr ! a)" "Position (Nodes gr ! b)" d]
      gm(2)[OF that(1,2)] that(3)
    by (simp add: spec_distance_def)
qed

lemma built_solver_fields:
  assumes "Graph_EVRP_TW_init ds cs rs params R = Inr gr"
  shows "\<exists>s. solver_fields gr l0 = Inr s"
  using Graph_init_fields(2)[OF assms]
  by (simp add: solver_fields_def py_get_def Let_def)

lemma solver_fields_built:
  assumes "Graph_EVRP_TW_init ds cs rs params R = Inr gr"
    and "solver_fields gr l0 = Inr s"
  shows "V_sequence s = Customer_Idx gr"
    and "F_Prime_sequence s = RS_Idx gr"
    and "Depot_start s = [0]"
    and "V_Prime_N_plus_1_sequence s = spec_successors gr"
    and "V_Prime_0_sequence s = spec_predecessors gr"
    and "V_Prime_sequence s = Customer_Idx gr @ RS_Idx gr"
    and "s_C s = g_C gr" and "s_Q s = g_Q gr" and "s_h s = g_r gr" and "s_g s = g_g gr"
    and "l_0 s = l0"
    and "s_distance_matrix s = distance_matrix gr"
    and "model_size s = int (length (Nodes gr))"
    and "CustomerTimeWindow s = CustomerTW gr"
    and "CustomerService s = CustomerServiceTime gr"
    and "s_CustomerDemand s = CustomerDemand gr"
    and "Travel_Time s = travel_time_matrix gr"
  using assms(2) Graph_init_fields(2)[OF assms(1)]
  by (auto simp: solver_fields_def py_get_def Let_def spec_successors_def spec_predecessors_def)

lemma for_each_Inr_iff:
  "for_each (x # xs) body = Inr zs \<longleftrightarrow>
     (\<exists>ys ys'. body x = Inr ys \<and> for_each xs body = Inr ys' \<and> zs = ys @ ys')"
  by (auto split: sum.splits)

lemma inner_loop_rows:
  assumes "for_each successors
      (\<lambda>j. if i \<noteq> j then (case row i j of Inl e \<Rightarrow> Inl e | Inr c \<Rightarrow> Inr [c]) else Inr []) = Inr rows"
  shows "list_all2 (\<lambda>c arc. row (fst arc) (snd arc) = Inr c) rows
           (map (Pair i) (filter (\<lambda>j. i \<noteq> j) successors))"
  using assms
proof (induction successors arbitrary: rows)
  case Nil
  then show ?case by simp
next
  case (Cons j successors)
  from Cons.prems obtain ys ys' where
    ys: "(if i \<noteq> j then (case row i j of Inl e \<Rightarrow> Inl e | Inr c \<Rightarrow> Inr [c]) else Inr []) = Inr ys"
    and ys': "for_each successors
      (\<lambda>j. if i \<noteq> j then (case row i j of Inl e \<Rightarrow> Inl e | Inr c \<Rightarrow> Inr [c]) else Inr []) = Inr ys'"
    and rows: "rows = ys @ ys'"
    unfolding for_each_Inr_iff by blast
  note ih = Cons.IH[OF ys']
  show ?case
  proof (cases "i = j")
    case True
    then show ?thesis using ys ih rows by simp
  next
    case False
    then obtain c where "row i j = Inr c" "ys = [c]"
      using ys by (auto split: sum.splits)
    then show ?thesis using False ih rows by simp
  qed
qed

lemma pair_loop_rows:
  assumes "pair_loop origins successors row = Inr rows"
  shows "list_all2 (\<lambda>c arc. row (fst arc) (snd arc) = Inr c) rows (spec_arcs origins successors)"
  using assms
proof (induction origins arbitrary: rows)
  case Nil
  then show ?case by (simp add: pair_loop_def spec_arcs_def)
next
  case (Cons i origins)
  from Cons.prems obtain ys ys' where
    ys: "for_each successors
      (\<lambda>j. if i \<noteq> j then (case row i j of Inl e \<Rightarrow> Inl e | Inr c \<Rightarrow> Inr [c]) else Inr []) = Inr ys"
    and ys': "pair_loop origins successors row = Inr ys'"
    and rows: "rows = ys @ ys'"
    unfolding pair_loop_def for_each_Inr_iff by blast
  have "list_all2 (\<lambda>c arc. row (fst arc) (snd arc) = Inr c) (ys @ ys')
          (map (Pair i) (filter (\<lambda>j. i \<noteq> j) successors) @ spec_arcs origins successors)"
    using inner_loop_rows[of successors i row ys, OF ys] Cons.IH[OF ys']
    by (rule list_all2_appendI)
  then show ?case
    by (simp add: rows spec_arcs_def)
qed

lemma spec_arcs_member:
  "arc \<in> set (spec_arcs origins successors) \<Longrightarrow>
     fst arc \<in> set origins \<and> snd arc \<in> set successors \<and> fst arc \<noteq> snd arc"
  by (auto simp: spec_arcs_def)

lemma cplex_number_Inr: "cplex_number a = Inr k \<longleftrightarrow> a = Some k"
  by (simp add: cplex_number_def split: option.splits)

lemma fl_add_Some: "fl_add a b = Some k \<longleftrightarrow> (\<exists>x y. a = Some x \<and> b = Some y \<and> finite_float (x + y) \<and> k = x + y)"
  by (auto simp: fl_add_def fl_def split: option.splits)

lemma fl_mul_Some: "fl_mul a b = Some k \<longleftrightarrow> (\<exists>x y. a = Some x \<and> b = Some y \<and> finite_float (x * y) \<and> k = x * y)"
  by (auto simp: fl_mul_def fl_def split: option.splits)

lemma fl_div_Some: "fl_div a v = Some k \<longleftrightarrow> (\<exists>x. a = Some x \<and> v \<noteq> 0 \<and> finite_float (x / v) \<and> k = x / v)"
  by (auto simp: fl_div_def fl_def split: option.splits)

lemma built_reads:
  assumes g: "Graph_EVRP_TW_init ds cs rs params R = Inr gr"
    and s: "solver_fields gr l0 = Inr s"
    and i: "0 \<le> i" "i < int (length (Nodes gr))"
    and j: "0 \<le> j" "j < int (length (Nodes gr))"
  shows "py_get2 (Travel_Time s) i j = Inr (fl_div (distance_matrix gr ! nat i ! nat j) (g_v gr))"
    and "py_get2 (s_distance_matrix s) i j = Inr (distance_matrix gr ! nat i ! nat j)"
    and "py_get (CustomerService s) i = Inr (spec_service gr i)"
    and "py_get (s_CustomerDemand s) i = Inr (Demand (Nodes gr ! nat i))"
    and "distance_matrix gr ! nat i ! nat j = Some d \<Longrightarrow> d = spec_distance gr i j"
proof -
  note f = solver_fields_built[OF g s]
  note gf = Graph_init_fields[OF g]
  note m = built_graph_matrices[OF g]
  have ni: "nat i < length (Nodes gr)" and nj: "nat j < length (Nodes gr)"
    using i j by simp_all
  show "py_get2 (Travel_Time s) i j = Inr (fl_div (distance_matrix gr ! nat i ! nat j) (g_v gr))"
    unfolding f(17) using py_get2_in_range[OF m(2) i j] m(3)[OF ni nj] by simp
  show "py_get2 (s_distance_matrix s) i j = Inr (distance_matrix gr ! nat i ! nat j)"
    unfolding f(12) using py_get2_in_range[OF m(1) i j] by simp
  show "py_get (CustomerService s) i = Inr (spec_service gr i)"
    unfolding f(15) gf(7) spec_service_def using i ni by (simp add: py_get_in_range)
  show "py_get (s_CustomerDemand s) i = Inr (Demand (Nodes gr ! nat i))"
    unfolding f(16) gf(8) using i ni by (simp add: py_get_in_range)
  show "d = spec_distance gr i j" if "distance_matrix gr ! nat i ! nat j = Some d"
    using m(4)[OF ni nj that] i j by simp
qed

lemma built_rows_Inr:
  assumes g: "Graph_EVRP_TW_init ds cs rs params R = Inr gr"
    and s: "solver_fields gr l0 = Inr s"
    and i: "0 \<le> i" "i < int (length (Nodes gr))"
    and j: "0 \<le> j" "j < int (length (Nodes gr))"
  shows "travel_time_customer_row s i j = Inr c \<Longrightarrow>
           c = \<lparr> lin_ind = [tao_name i, tao_name j, x_name i j],
                 lin_val = [1, - 1, spec_travel_time gr i j + spec_service gr i + l0],
                 c_sense = Sense_L, c_rhs = l0 \<rparr>"
    and "travel_time_rs_row s i j = Inr c \<Longrightarrow>
           c = \<lparr> lin_ind = [tao_name i, tao_name j, x_name i j, y_name i],
                 lin_val = [1, - 1, l0 + g_g gr * g_Q gr, - g_g gr],
                 c_sense = Sense_L, c_rhs = l0 \<rparr>"
    and "load_capacity_row s i j = Inr c \<Longrightarrow>
           c = \<lparr> lin_ind = [u_name j, u_name i, x_name i j],
                 lin_val = [1, - 1, g_C gr + Demand (Nodes gr ! nat i)],
                 c_sense = Sense_L, c_rhs = g_C gr \<rparr>"
    and "battery_customer_row s i j = Inr c \<Longrightarrow>
           c = \<lparr> lin_ind = [y_name j, y_name i, x_name i j],
                 lin_val = [1, - 1, g_r gr * spec_distance gr i j + g_Q gr],
                 c_sense = Sense_L, c_rhs = g_Q gr \<rparr>"
    and "battery_rs_row s i j = Inr c \<Longrightarrow>
           c = \<lparr> lin_ind = [y_name j, x_name i j],
                 lin_val = [1, g_r gr * spec_distance gr i j],
                 c_sense = Sense_L, c_rhs = g_Q gr \<rparr>"
proof -
  note f = solver_fields_built[OF g s]
  note r = built_reads[OF g s i j]
  show "c = \<lparr> lin_ind = [tao_name i, tao_name j, x_name i j],
                 lin_val = [1, - 1, spec_travel_time gr i j + spec_service gr i + l0],
                 c_sense = Sense_L, c_rhs = l0 \<rparr>"
    if "travel_time_customer_row s i j = Inr c"
  proof -
    from that obtain k where
      k: "fl_add (fl_add (fl_div (distance_matrix gr ! nat i ! nat j) (g_v gr))
             (Some (spec_service gr i))) (Some l0) = Some k"
      and c: "c = \<lparr> lin_ind = [tao_name i, tao_name j, x_name i j], lin_val = [1, - 1, k],
                c_sense = Sense_L, c_rhs = l0 \<rparr>"
      by (auto simp: travel_time_customer_row_def r(1,3) f(11) cplex_number_Inr split: sum.splits)
    from k obtain d where d: "distance_matrix gr ! nat i ! nat j = Some d"
      and kv: "k = d / g_v gr + spec_service gr i + l0"
      by (auto simp: fl_add_Some fl_div_Some)
    show ?thesis
      using c kv r(5)[OF d] by (simp add: spec_travel_time_def)
  qed
  show "c = \<lparr> lin_ind = [tao_name i, tao_name j, x_name i j, y_name i],
                 lin_val = [1, - 1, l0 + g_g gr * g_Q gr, - g_g gr],
                 c_sense = Sense_L, c_rhs = l0 \<rparr>"
    if "travel_time_rs_row s i j = Inr c"
    using that
    by (auto simp: travel_time_rs_row_def f(8,10,11) cplex_number_Inr fl_add_Some fl_mul_Some
        split: sum.splits)
  show "c = \<lparr> lin_ind = [u_name j, u_name i, x_name i j],
                 lin_val = [1, - 1, g_C gr + Demand (Nodes gr ! nat i)],
                 c_sense = Sense_L, c_rhs = g_C gr \<rparr>"
    if "load_capacity_row s i j = Inr c"
    using that
    by (auto simp: load_capacity_row_def r(4) f(7) cplex_number_Inr fl_add_Some
        split: sum.splits)
  show "c = \<lparr> lin_ind = [y_name j, y_name i, x_name i j],
                 lin_val = [1, - 1, g_r gr * spec_distance gr i j + g_Q gr],
                 c_sense = Sense_L, c_rhs = g_Q gr \<rparr>"
    if "battery_customer_row s i j = Inr c"
  proof -
    from that obtain k where
      k: "fl_add (fl_mul (Some (g_r gr)) (distance_matrix gr ! nat i ! nat j)) (Some (g_Q gr)) = Some k"
      and c: "c = \<lparr> lin_ind = [y_name j, y_name i, x_name i j], lin_val = [1, - 1, k],
                c_sense = Sense_L, c_rhs = g_Q gr \<rparr>"
      by (auto simp: battery_customer_row_def r(2) f(8,9) cplex_number_Inr split: sum.splits)
    from k obtain d where d: "distance_matrix gr ! nat i ! nat j = Some d"
      and kv: "k = g_r gr * d + g_Q gr"
      by (auto simp: fl_add_Some fl_mul_Some)
    show ?thesis
      using c kv r(5)[OF d] by simp
  qed
  show "c = \<lparr> lin_ind = [y_name j, x_name i j],
                 lin_val = [1, g_r gr * spec_distance gr i j],
                 c_sense = Sense_L, c_rhs = g_Q gr \<rparr>"
    if "battery_rs_row s i j = Inr c"
  proof -
    from that obtain k where
      k: "fl_mul (Some (g_r gr)) (distance_matrix gr ! nat i ! nat j) = Some k"
      and c: "c = \<lparr> lin_ind = [y_name j, x_name i j], lin_val = [1, k],
                c_sense = Sense_L, c_rhs = g_Q gr \<rparr>"
      by (auto simp: battery_rs_row_def r(2) f(8,9) cplex_number_Inr split: sum.splits)
    from k obtain d where d: "distance_matrix gr ! nat i ! nat j = Some d"
      and kv: "k = g_r gr * d"
      by (auto simp: fl_mul_Some)
    show ?thesis
      using c kv r(5)[OF d] by simp
  qed
qed

lemma holds_rows:
  "holds (value_of \<nu>) \<lparr> lin_ind = [tao_name i, tao_name j, x_name i j], lin_val = [1, - 1, k],
       c_sense = Sense_L, c_rhs = r \<rparr>
     \<longleftrightarrow> \<nu> (Tao i) - \<nu> (Tao j) + k * \<nu> (X i j) \<le> r"
  "holds (value_of \<nu>) \<lparr> lin_ind = [tao_name i, tao_name j, x_name i j, y_name i],
       lin_val = [1, - 1, k, - k'], c_sense = Sense_L, c_rhs = r \<rparr>
     \<longleftrightarrow> \<nu> (Tao i) - \<nu> (Tao j) + k * \<nu> (X i j) - k' * \<nu> (Y i) \<le> r"
  "holds (value_of \<nu>) \<lparr> lin_ind = [y_name j, y_name i, x_name i j], lin_val = [1, - 1, k],
       c_sense = Sense_L, c_rhs = r \<rparr>
     \<longleftrightarrow> \<nu> (Y j) - \<nu> (Y i) + k * \<nu> (X i j) \<le> r"
  "holds (value_of \<nu>) \<lparr> lin_ind = [y_name j, x_name i j], lin_val = [1, k],
       c_sense = Sense_L, c_rhs = r \<rparr>
     \<longleftrightarrow> \<nu> (Y j) + k * \<nu> (X i j) \<le> r"
  by (auto simp: holds_def lhs_value_def value_of_simps)

lemma well_formed_rows:
  assumes "i \<noteq> j"
  shows "well_formed \<lparr> lin_ind = [tao_name i, tao_name j, x_name i j], lin_val = [a, b, c],
           c_sense = sn, c_rhs = r \<rparr>"
    and "well_formed \<lparr> lin_ind = [tao_name i, tao_name j, x_name i j, y_name i],
           lin_val = [a, b, c, d], c_sense = sn, c_rhs = r \<rparr>"
    and "well_formed \<lparr> lin_ind = [y_name j, y_name i, x_name i j], lin_val = [a, b, c],
           c_sense = sn, c_rhs = r \<rparr>"
    and "well_formed \<lparr> lin_ind = [y_name j, x_name i j], lin_val = [a, b],
           c_sense = sn, c_rhs = r \<rparr>"
proof -
  have "distinct [tao_name i, tao_name j, x_name i j]"
    by (rule distinct_names) (use assms in \<open>simp add: var_of_name_simps\<close>)
  then show "well_formed \<lparr> lin_ind = [tao_name i, tao_name j, x_name i j], lin_val = [a, b, c],
           c_sense = sn, c_rhs = r \<rparr>"
    by (simp add: well_formed_def var_of_name_simps)
  have "distinct [tao_name i, tao_name j, x_name i j, y_name i]"
    by (rule distinct_names) (use assms in \<open>simp add: var_of_name_simps\<close>)
  then show "well_formed \<lparr> lin_ind = [tao_name i, tao_name j, x_name i j, y_name i],
           lin_val = [a, b, c, d], c_sense = sn, c_rhs = r \<rparr>"
    by (simp add: well_formed_def var_of_name_simps)
  have "distinct [y_name j, y_name i, x_name i j]"
    by (rule distinct_names) (use assms in \<open>simp add: var_of_name_simps\<close>)
  then show "well_formed \<lparr> lin_ind = [y_name j, y_name i, x_name i j], lin_val = [a, b, c],
           c_sense = sn, c_rhs = r \<rparr>"
    by (simp add: well_formed_def var_of_name_simps)
  have "distinct [y_name j, x_name i j]"
    by (rule distinct_names) (simp add: var_of_name_simps)
  then show "well_formed \<lparr> lin_ind = [y_name j, x_name i j], lin_val = [a, b],
           c_sense = sn, c_rhs = r \<rparr>"
    by (simp add: well_formed_def var_of_name_simps)
qed

lemma built_origins:
  assumes "Graph_EVRP_TW_init ds cs rs params R = Inr gr" "ds \<noteq> []"
  shows "i \<in> set (0 # Customer_Idx gr) \<Longrightarrow> 0 \<le> i \<and> i < int (length (Nodes gr))"
    and "i \<in> set (0 # RS_Idx gr) \<Longrightarrow> 0 \<le> i \<and> i < int (length (Nodes gr))"
  using built_graph_predecessors(2)[OF assms, of i]
  by (auto simp: spec_predecessors_def)

lemma built_travel_time_customer:
  assumes g: "Graph_EVRP_TW_init ds cs rs params R = Inr gr" and d: "ds \<noteq> []"
    and s: "solver_fields gr l0 = Inr s"
    and rows: "travel_time_customer_constraints s = Inr rows"
  shows "list_all2 (\<lambda>c arc. c_sense c = Sense_L \<and> well_formed c
             \<and> (\<forall>\<nu>. holds (value_of \<nu>) c = spec_time_customer \<nu> gr l0 arc)) rows
           (spec_arcs (0 # Customer_Idx gr) (spec_successors gr))"
proof -
  note f = solver_fields_built[OF g s]
  have o: "Depot_start s @ V_sequence s = 0 # Customer_Idx gr"
    by (simp add: f)
  have "list_all2 (\<lambda>c arc. travel_time_customer_row s (fst arc) (snd arc) = Inr c) rows
          (spec_arcs (0 # Customer_Idx gr) (spec_successors gr))"
    using rows unfolding travel_time_customer_constraints_def o f(4) by (rule pair_loop_rows)
  then show ?thesis
  proof (rule list.rel_mono_strong)
    fix c arc
    assume arc: "arc \<in> set (spec_arcs (0 # Customer_Idx gr) (spec_successors gr))"
      and c: "travel_time_customer_row s (fst arc) (snd arc) = Inr c"
    note mem = spec_arcs_member[OF arc]
    have i: "0 \<le> fst arc" "fst arc < int (length (Nodes gr))"
      using mem built_origins[OF g d, of "fst arc"] built_graph_predecessors(2,3)[OF g d]
      by auto
    have j: "0 \<le> snd arc" "snd arc < int (length (Nodes gr))"
      using mem built_graph_successors(2)[OF g d, of "snd arc"] by auto
    have ne: "fst arc \<noteq> snd arc" using mem by simp
    note row = built_rows_Inr(1)[OF g s i j c]
    show "c_sense c = Sense_L \<and> well_formed c
        \<and> (\<forall>\<nu>. holds (value_of \<nu>) c = spec_time_customer \<nu> gr l0 arc)"
      unfolding row
      by (simp add: holds_rows(1) well_formed_rows(1)[OF ne] spec_time_customer_def)
  qed
qed

lemma built_travel_time_rs:
  assumes g: "Graph_EVRP_TW_init ds cs rs params R = Inr gr" and d: "ds \<noteq> []"
    and s: "solver_fields gr l0 = Inr s"
    and rows: "travel_time_rs_constraints s = Inr rows"
  shows "list_all2 (\<lambda>c arc. c_sense c = Sense_L \<and> well_formed c
             \<and> (\<forall>\<nu>. holds (value_of \<nu>) c = spec_time_station \<nu> gr l0 arc)) rows
           (spec_arcs (RS_Idx gr) (spec_successors gr))"
proof -
  note f = solver_fields_built[OF g s]
  have o: "F_Prime_sequence s = RS_Idx gr"
    by (simp add: f)
  have "list_all2 (\<lambda>c arc. travel_time_rs_row s (fst arc) (snd arc) = Inr c) rows
          (spec_arcs (RS_Idx gr) (spec_successors gr))"
    using rows unfolding travel_time_rs_constraints_def o f(4) by (rule pair_loop_rows)
  then show ?thesis
  proof (rule list.rel_mono_strong)
    fix c arc
    assume arc: "arc \<in> set (spec_arcs (RS_Idx gr) (spec_successors gr))"
      and c: "travel_time_rs_row s (fst arc) (snd arc) = Inr c"
    note mem = spec_arcs_member[OF arc]
    have i: "0 \<le> fst arc" "fst arc < int (length (Nodes gr))"
      using mem built_origins[OF g d, of "fst arc"] built_graph_predecessors(2,3)[OF g d]
      by auto
    have j: "0 \<le> snd arc" "snd arc < int (length (Nodes gr))"
      using mem built_graph_successors(2)[OF g d, of "snd arc"] by auto
    have ne: "fst arc \<noteq> snd arc" using mem by simp
    note row = built_rows_Inr(2)[OF g s i j c]
    show "c_sense c = Sense_L \<and> well_formed c
        \<and> (\<forall>\<nu>. holds (value_of \<nu>) c = spec_time_station \<nu> gr l0 arc)"
      unfolding row
      by (simp add: holds_rows(2) well_formed_rows(2)[OF ne] spec_time_station_def)
  qed
qed

lemma built_battery_customer:
  assumes g: "Graph_EVRP_TW_init ds cs rs params R = Inr gr" and d: "ds \<noteq> []"
    and s: "solver_fields gr l0 = Inr s"
    and rows: "battery_customer_constraints s = Inr rows"
  shows "list_all2 (\<lambda>c arc. c_sense c = Sense_L \<and> well_formed c
             \<and> (\<forall>\<nu>. holds (value_of \<nu>) c = spec_battery_customer \<nu> gr arc)) rows
           (spec_arcs (Customer_Idx gr) (spec_successors gr))"
proof -
  note f = solver_fields_built[OF g s]
  have o: "V_sequence s = Customer_Idx gr"
    by (simp add: f)
  have "list_all2 (\<lambda>c arc. battery_customer_row s (fst arc) (snd arc) = Inr c) rows
          (spec_arcs (Customer_Idx gr) (spec_successors gr))"
    using rows unfolding battery_customer_constraints_def o f(4) by (rule pair_loop_rows)
  then show ?thesis
  proof (rule list.rel_mono_strong)
    fix c arc
    assume arc: "arc \<in> set (spec_arcs (Customer_Idx gr) (spec_successors gr))"
      and c: "battery_customer_row s (fst arc) (snd arc) = Inr c"
    note mem = spec_arcs_member[OF arc]
    have i: "0 \<le> fst arc" "fst arc < int (length (Nodes gr))"
      using mem built_origins[OF g d, of "fst arc"] built_graph_predecessors(2,3)[OF g d]
      by auto
    have j: "0 \<le> snd arc" "snd arc < int (length (Nodes gr))"
      using mem built_graph_successors(2)[OF g d, of "snd arc"] by auto
    have ne: "fst arc \<noteq> snd arc" using mem by simp
    note row = built_rows_Inr(4)[OF g s i j c]
    show "c_sense c = Sense_L \<and> well_formed c
        \<and> (\<forall>\<nu>. holds (value_of \<nu>) c = spec_battery_customer \<nu> gr arc)"
      unfolding row
      by (simp add: holds_rows(3) well_formed_rows(3)[OF ne] spec_battery_customer_def)
  qed
qed

lemma built_battery_rs:
  assumes g: "Graph_EVRP_TW_init ds cs rs params R = Inr gr" and d: "ds \<noteq> []"
    and s: "solver_fields gr l0 = Inr s"
    and rows: "battery_rs_constraints s = Inr rows"
  shows "list_all2 (\<lambda>c arc. c_sense c = Sense_L \<and> well_formed c
             \<and> (\<forall>\<nu>. holds (value_of \<nu>) c = spec_battery_depot_station \<nu> gr arc)) rows
           (spec_arcs (0 # RS_Idx gr) (spec_successors gr))"
proof -
  note f = solver_fields_built[OF g s]
  have o: "Depot_start s @ F_Prime_sequence s = 0 # RS_Idx gr"
    by (simp add: f)
  have "list_all2 (\<lambda>c arc. battery_rs_row s (fst arc) (snd arc) = Inr c) rows
          (spec_arcs (0 # RS_Idx gr) (spec_successors gr))"
    using rows unfolding battery_rs_constraints_def o f(4) by (rule pair_loop_rows)
  then show ?thesis
  proof (rule list.rel_mono_strong)
    fix c arc
    assume arc: "arc \<in> set (spec_arcs (0 # RS_Idx gr) (spec_successors gr))"
      and c: "battery_rs_row s (fst arc) (snd arc) = Inr c"
    note mem = spec_arcs_member[OF arc]
    have i: "0 \<le> fst arc" "fst arc < int (length (Nodes gr))"
      using mem built_origins[OF g d, of "fst arc"] built_graph_predecessors(2,3)[OF g d]
      by auto
    have j: "0 \<le> snd arc" "snd arc < int (length (Nodes gr))"
      using mem built_graph_successors(2)[OF g d, of "snd arc"] by auto
    have ne: "fst arc \<noteq> snd arc" using mem by simp
    note row = built_rows_Inr(5)[OF g s i j c]
    show "c_sense c = Sense_L \<and> well_formed c
        \<and> (\<forall>\<nu>. holds (value_of \<nu>) c = spec_battery_depot_station \<nu> gr arc)"
      unfolding row
      by (simp add: holds_rows(4) well_formed_rows(4)[OF ne] spec_battery_depot_station_def)
  qed
qed

lemma built_load_capacity:
  assumes g: "Graph_EVRP_TW_init ds cs rs params R = Inr gr" and d: "ds \<noteq> []"
    and s: "solver_fields gr l0 = Inr s"
    and rows: "load_capacity_constraints s = Inr rows"
  shows "list_all (\<lambda>c. c_sense c = Sense_L) rows"
proof -
  note f = solver_fields_built[OF g s]
  have "list_all2 (\<lambda>c arc. load_capacity_row s (fst arc) (snd arc) = Inr c) rows
          (spec_arcs (spec_predecessors gr) (spec_successors gr))"
    using rows unfolding load_capacity_constraints_def f(4,5) by (rule pair_loop_rows)
  then have "list_all2 (\<lambda>c arc. c_sense c = Sense_L) rows
          (spec_arcs (spec_predecessors gr) (spec_successors gr))"
  proof (rule list.rel_mono_strong)
    fix c arc
    assume "load_capacity_row s (fst arc) (snd arc) = Inr c"
    then show "c_sense c = Sense_L"
      by (auto simp: load_capacity_row_def split: sum.splits)
  qed
  then show ?thesis
    by (auto simp: list_all2_conv_all_nth list_all_length)
qed

lemma solver_init_Inr:
  assumes "EVPR_TW_Solver_init gr l0 = Inr (s, vars, cons)"
  shows "solver_fields gr l0 = Inr s"
    and "\<exists>tc tr lc bc br.
           travel_time_customer_constraints s = Inr tc
         \<and> travel_time_rs_constraints s = Inr tr
         \<and> load_capacity_constraints s = Inr lc
         \<and> battery_customer_constraints s = Inr bc
         \<and> battery_rs_constraints s = Inr br
         \<and> cons = customer_constraints s @ rs_constraints s
                    @ route_consistency_constraints s @ tc @ tr @ lc @ bc @ br"
  using assms
  by (auto simp: EVPR_TW_Solver_init_def set_constraints_def split: sum.splits)

lemma py_repeat_single: "py_repeat [k] n = replicate (nat n) k"
  by (simp add: py_repeat_def)

lemma sum_zip_replicate:
  "(\<Sum>(name, coef)\<leftarrow>zip names (replicate (length names) k). coef * val name)
     = k * (\<Sum>name\<leftarrow>names. (val name :: real))"
  by (induction names) (simp_all add: algebra_simps)

lemma filter_neq_absent: "x \<notin> set xs \<Longrightarrow> filter (\<lambda>j. x \<noteq> j) xs = xs"
  by (induction xs) auto

lemma length_filter_neq:
  "distinct xs \<Longrightarrow> x \<in> set xs \<Longrightarrow> length (filter (\<lambda>j. x \<noteq> j) xs) = length xs - 1"
proof (induction xs)
  case Nil
  then show ?case by simp
next
  case (Cons a xs)
  show ?case
  proof (cases "x = a")
    case True
    then have "x \<notin> set xs" using Cons.prems(1) by simp
    then show ?thesis using True by (simp add: filter_neq_absent)
  next
    case False
    then have "x \<in> set xs" using Cons.prems(2) by simp
    moreover from this have "0 < length xs" by (rule length_pos_if_in_set)
    ultimately show ?thesis using Cons False by simp
  qed
qed

lemma filter_neq_commute: "filter (\<lambda>j. i \<noteq> j) xs = filter (\<lambda>j. j \<noteq> i) xs"
  by (rule filter_cong) auto

lemma sum_value_of_x:
  "(\<Sum>name\<leftarrow>map (x_name i) js. value_of \<nu> name) = (\<Sum>j\<leftarrow>js. \<nu> (X i j))"
  "(\<Sum>name\<leftarrow>map (\<lambda>a. x_name a j) js. value_of \<nu> name) = (\<Sum>a\<leftarrow>js. \<nu> (X a j))"
  by (simp_all add: comp_def value_of_simps)

lemma lhs_value_visit:
  assumes "distinct (V_Prime_N_plus_1_sequence s)" "i \<in> set (V_Prime_N_plus_1_sequence s)"
  shows "lhs_value (value_of \<nu>) (visit_constraint s sn i) =
           (\<Sum>j\<leftarrow>filter (\<lambda>j. j \<noteq> i) (V_Prime_N_plus_1_sequence s). \<nu> (X i j))"
proof -
  have "nat (int (length (V_Prime_N_plus_1_sequence s)) - 1)
      = length (map (x_name i) (filter (\<lambda>j. i \<noteq> j) (V_Prime_N_plus_1_sequence s)))"
    using length_filter_neq[OF assms] by simp
  then have "lhs_value (value_of \<nu>) (visit_constraint s sn i)
      = (\<Sum>name\<leftarrow>map (x_name i) (filter (\<lambda>j. i \<noteq> j) (V_Prime_N_plus_1_sequence s)).
           value_of \<nu> name)"
    unfolding lhs_value_def visit_constraint_def py_repeat_single
    using sum_zip_replicate[where names = "map (x_name i) (filter (\<lambda>j. i \<noteq> j) (V_Prime_N_plus_1_sequence s))"
        and k = 1 and val = "value_of \<nu>"]
    by simp
  then show ?thesis
    by (simp only: sum_value_of_x filter_neq_commute)
qed

lemma distinct_x_names:
  "distinct js \<Longrightarrow> distinct (map (x_name i) js)"
  "distinct js \<Longrightarrow> distinct (map (\<lambda>a. x_name a j) js)"
proof -
  assume d: "distinct js"
  have "distinct (map var_of_name (map (x_name i) js))"
    using d by (simp add: comp_def var_of_name_simps distinct_map inj_on_def)
  then show "distinct (map (x_name i) js)" by (rule distinct_names)
  have "distinct (map var_of_name (map (\<lambda>a. x_name a j) js))"
    using d by (simp add: comp_def var_of_name_simps distinct_map inj_on_def)
  then show "distinct (map (\<lambda>a. x_name a j) js)" by (rule distinct_names)
qed

lemma well_formed_visit:
  assumes "distinct (V_Prime_N_plus_1_sequence s)" "i \<in> set (V_Prime_N_plus_1_sequence s)"
  shows "well_formed (visit_constraint s sn i)"
proof -
  have "length (lin_ind (visit_constraint s sn i)) = length (lin_val (visit_constraint s sn i))"
    using length_filter_neq[OF assms] by (simp add: visit_constraint_def py_repeat_single)
  moreover have "distinct (lin_ind (visit_constraint s sn i))"
    using assms(1) by (simp add: visit_constraint_def distinct_x_names)
  moreover have "list_all (\<lambda>name. var_of_name name \<noteq> None) (lin_ind (visit_constraint s sn i))"
    by (simp add: visit_constraint_def list_all_iff var_of_name_simps)
  ultimately show ?thesis by (simp add: well_formed_def)
qed

lemma lhs_value_route_consistency:
  "lhs_value (value_of \<nu>) (route_consistency_constraint s j) =
     (\<Sum>i\<leftarrow>filter (\<lambda>i. i \<noteq> j) (V_Prime_N_plus_1_sequence s). \<nu> (X j i))
   - (\<Sum>i\<leftarrow>filter (\<lambda>i. i \<noteq> j) (V_Prime_0_sequence s). \<nu> (X i j))"
proof -
  have "lhs_value (value_of \<nu>) (route_consistency_constraint s j) =
     (\<Sum>name\<leftarrow>map (x_name j) (filter (\<lambda>i. i \<noteq> j) (V_Prime_N_plus_1_sequence s)). value_of \<nu> name)
   - (\<Sum>name\<leftarrow>map (\<lambda>i. x_name i j) (filter (\<lambda>i. i \<noteq> j) (V_Prime_0_sequence s)). value_of \<nu> name)"
    unfolding lhs_value_def route_consistency_constraint_def Let_def py_repeat_single
    using sum_zip_replicate[where names = "map (x_name j) (filter (\<lambda>i. i \<noteq> j) (V_Prime_N_plus_1_sequence s))"
        and k = 1 and val = "value_of \<nu>"]
      sum_zip_replicate[where names = "map (\<lambda>i. x_name i j) (filter (\<lambda>i. i \<noteq> j) (V_Prime_0_sequence s))"
        and k = "- 1" and val = "value_of \<nu>"]
    by simp
  then show ?thesis
    by (simp only: sum_value_of_x)
qed

lemma well_formed_route_consistency:
  assumes "distinct (V_Prime_N_plus_1_sequence s)" "distinct (V_Prime_0_sequence s)"
  shows "well_formed (route_consistency_constraint s j)"
proof -
  let ?out = "filter (\<lambda>i. i \<noteq> j) (V_Prime_N_plus_1_sequence s)"
  let ?in = "filter (\<lambda>i. i \<noteq> j) (V_Prime_0_sequence s)"
  have names: "lin_ind (route_consistency_constraint s j)
      = map (x_name j) ?out @ map (\<lambda>i. x_name i j) ?in"
    by (simp add: route_consistency_constraint_def Let_def)
  have "map var_of_name (lin_ind (route_consistency_constraint s j))
      = map (\<lambda>i. Some (X j i)) ?out @ map (\<lambda>i. Some (X i j)) ?in"
    by (simp add: names comp_def var_of_name_simps)
  moreover have "distinct (map (\<lambda>i. Some (X j i)) ?out @ map (\<lambda>i. Some (X i j)) ?in)"
    using assms by (auto simp: distinct_map inj_on_def)
  ultimately have "distinct (map var_of_name (lin_ind (route_consistency_constraint s j)))"
    by simp
  then have "distinct (lin_ind (route_consistency_constraint s j))"
    by (rule distinct_names)
  moreover have "length (lin_ind (route_consistency_constraint s j))
     = length (lin_val (route_consistency_constraint s j))"
    by (simp add: route_consistency_constraint_def Let_def py_repeat_single)
  moreover have "list_all (\<lambda>name. var_of_name name \<noteq> None)
      (lin_ind (route_consistency_constraint s j))"
    by (auto simp: names list_all_iff var_of_name_simps)
  ultimately show ?thesis by (simp add: well_formed_def)
qed

lemma sum_list_zero: "(\<And>x. x \<in> set xs \<Longrightarrow> f x = (0::real)) \<Longrightarrow> (\<Sum>x\<leftarrow>xs. f x) = 0"
  by (induction xs) simp_all

lemma sum_list_indicator:
  "distinct xs \<Longrightarrow> a \<in> set xs \<Longrightarrow> (\<Sum>i\<leftarrow>xs. if i = a then 1 else (0::real)) = 1"
proof (induction xs)
  case Nil
  then show ?case by simp
next
  case (Cons x xs)
  show ?case
  proof (cases "x = a")
    case True
    then have "a \<notin> set xs" using Cons.prems(1) by simp
    then have "(\<Sum>i\<leftarrow>xs. if i = a then 1 else (0::real)) = 0"
      by (intro sum_list_zero) auto
    then show ?thesis using True by simp
  next
    case False
    then show ?thesis using Cons by simp
  qed
qed

lemma length_filter_eq:
  "distinct xs \<Longrightarrow> a \<in> set xs \<Longrightarrow> length (filter (\<lambda>x. x = a) xs) = 1"
  by (induction xs) (auto simp: filter_empty_conv)

lemma flow_separates:
  assumes g: "Graph_EVRP_TW_init ds cs rs params R = Inr gr" and d: "ds \<noteq> []"
    and j: "j \<in> set (Customer_Idx gr @ RS_Idx gr)"
    and j': "j' \<in> set (Customer_Idx gr @ RS_Idx gr)"
    and ne: "j' \<noteq> j"
  shows "\<not> spec_flow_conservation (\<lambda>x. if x = X 0 j then 1 else 0) gr j"
    and "spec_flow_conservation (\<lambda>x. if x = X 0 j then 1 else 0) gr j'"
proof -
  note ix = built_graph_indices[OF g]
  have j0: "j \<noteq> 0" "j' \<noteq> 0" using j j' ix by auto
  have dp: "distinct (spec_predecessors gr)" by (rule built_graph_predecessors(1)[OF g d])
  have in0: "0 \<in> set (filter (\<lambda>i. i \<noteq> j) (spec_predecessors gr))"
    using j0 by (simp add: spec_predecessors_def)
  have "(\<Sum>i\<leftarrow>filter (\<lambda>i. i \<noteq> j) (spec_predecessors gr). if X i j = X 0 j then 1 else (0::real))
      = (\<Sum>i\<leftarrow>filter (\<lambda>i. i \<noteq> j) (spec_predecessors gr). if i = 0 then 1 else 0)"
    by simp
  also have "\<dots> = 1"
    using dp in0 by (intro sum_list_indicator) simp_all
  finally have inflow: "(\<Sum>i\<leftarrow>filter (\<lambda>i. i \<noteq> j) (spec_predecessors gr).
      if X i j = X 0 j then 1 else (0::real)) = 1" .
  have outflow: "(\<Sum>i\<leftarrow>filter (\<lambda>i. i \<noteq> j) (spec_successors gr).
      if X j i = X 0 j then 1 else (0::real)) = 0"
    using j0 by (intro sum_list_zero) simp
  show "\<not> spec_flow_conservation (\<lambda>x. if x = X 0 j then 1 else 0) gr j"
    unfolding spec_flow_conservation_def inflow outflow by simp
  have in': "(\<Sum>i\<leftarrow>filter (\<lambda>i. i \<noteq> j') (spec_predecessors gr).
      if X i j' = X 0 j then 1 else (0::real)) = 0"
    using ne by (intro sum_list_zero) simp
  have out': "(\<Sum>i\<leftarrow>filter (\<lambda>i. i \<noteq> j') (spec_successors gr).
      if X j' i = X 0 j then 1 else (0::real)) = 0"
    using j0 by (intro sum_list_zero) simp
  show "spec_flow_conservation (\<lambda>x. if x = X 0 j then 1 else 0) gr j'"
    unfolding spec_flow_conservation_def in' out' by simp
qed

lemma holds_route_consistency:
  assumes g: "Graph_EVRP_TW_init ds cs rs params R = Inr gr"
    and s: "solver_fields gr l0 = Inr s"
  shows "holds (value_of \<nu>) (route_consistency_constraint s j) = spec_flow_conservation \<nu> gr j"
  using lhs_value_route_consistency[of \<nu> s j]
  by (auto simp: holds_def spec_flow_conservation_def route_consistency_constraint_def
      Let_def solver_fields_built(4,5)[OF g s])

lemma states_flow_route_consistency:
  assumes g: "Graph_EVRP_TW_init ds cs rs params R = Inr gr" and d: "ds \<noteq> []"
    and s: "solver_fields gr l0 = Inr s"
    and j: "j \<in> set (Customer_Idx gr @ RS_Idx gr)"
    and j': "j' \<in> set (Customer_Idx gr @ RS_Idx gr)"
  shows "states_flow gr j (route_consistency_constraint s j') \<longleftrightarrow> j' = j"
proof
  assume st: "states_flow gr j (route_consistency_constraint s j')"
  show "j' = j"
  proof (rule ccontr)
    assume ne: "j' \<noteq> j"
    let ?\<nu> = "\<lambda>x. if x = X 0 j then 1 else (0::real)"
    have "holds (value_of ?\<nu>) (route_consistency_constraint s j') = spec_flow_conservation ?\<nu> gr j"
      using st by (simp add: states_flow_def)
    then have "spec_flow_conservation ?\<nu> gr j' = spec_flow_conservation ?\<nu> gr j"
      by (simp add: holds_route_consistency[OF g s])
    then show False
      using flow_separates[OF g d j j' ne] by simp
  qed
next
  assume "j' = j"
  moreover have "c_sense (route_consistency_constraint s j) = Sense_E"
    by (simp add: route_consistency_constraint_def Let_def)
  ultimately show "states_flow gr j (route_consistency_constraint s j')"
    by (simp add: states_flow_def holds_route_consistency[OF g s])
qed

lemma visit_not_flow:
  assumes "distinct (V_Prime_N_plus_1_sequence s)" "i \<in> set (V_Prime_N_plus_1_sequence s)"
  shows "\<not> states_flow gr j (visit_constraint s sn i)"
proof
  assume st: "states_flow gr j (visit_constraint s sn i)"
  have "lhs_value (value_of (\<lambda>x. 0)) (visit_constraint s sn i) = 0"
    unfolding lhs_value_visit[OF assms] by (intro sum_list_zero) simp
  then have "\<not> holds (value_of (\<lambda>x. 0)) (visit_constraint s sn i)"
    using st by (simp add: holds_def states_flow_def visit_constraint_def)
  moreover have "spec_flow_conservation (\<lambda>x. 0) gr j"
    by (simp add: spec_flow_conservation_def)
  ultimately show False
    using st by (simp add: states_flow_def)
qed

lemma filter_states_flow_L:
  "list_all (\<lambda>c. c_sense c = Sense_L) rows \<Longrightarrow> filter (states_flow gr j) rows = []"
  by (auto simp: filter_empty_conv list_all_iff states_flow_def)

lemma list_all2_sense_L:
  "list_all2 (\<lambda>c arc. c_sense c = Sense_L \<and> P c arc) rows arcs \<Longrightarrow>
     list_all (\<lambda>c. c_sense c = Sense_L) rows"
  by (auto simp: list_all2_conv_all_nth list_all_length)

lemma built_visit_rows:
  assumes g: "Graph_EVRP_TW_init ds cs rs params R = Inr gr" and d: "ds \<noteq> []"
    and s: "solver_fields gr l0 = Inr s"
  shows "list_all2 (\<lambda>c i. c_sense c = Sense_E \<and> well_formed c
                \<and> (\<forall>\<nu>. holds (value_of \<nu>) c = spec_customer_coverage \<nu> gr i))
           (customer_constraints s) (Customer_Idx gr)"
    and "list_all2 (\<lambda>c i. c_sense c = Sense_L \<and> well_formed c
                \<and> (\<forall>\<nu>. holds (value_of \<nu>) c = spec_station_bound \<nu> gr i))
           (rs_constraints s) (RS_Idx gr)"
    and "filter (states_flow gr j) (customer_constraints s) = []"
    and "filter (states_flow gr j) (rs_constraints s) = []"
proof -
  note f = solver_fields_built[OF g s]
  note succ = built_graph_successors[OF g d]
  have dist: "distinct (V_Prime_N_plus_1_sequence s)"
    using succ(1) by (simp add: f(4))
  have mem: "i \<in> set (V_Prime_N_plus_1_sequence s)"
    if "i \<in> set (Customer_Idx gr) \<or> i \<in> set (RS_Idx gr)" for i
    using that succ(3,4) by (auto simp: f(4))
  show "list_all2 (\<lambda>c i. c_sense c = Sense_E \<and> well_formed c
                \<and> (\<forall>\<nu>. holds (value_of \<nu>) c = spec_customer_coverage \<nu> gr i))
           (customer_constraints s) (Customer_Idx gr)"
    unfolding customer_constraints_def f(1) list_all2_map1
  proof (rule list_all2_same[THEN iffD2], intro ballI conjI allI)
    fix i \<nu>
    assume "i \<in> set (Customer_Idx gr)"
    then have i: "i \<in> set (V_Prime_N_plus_1_sequence s)" using mem by simp
    from lhs_value_visit[OF dist i]
    show "holds (value_of \<nu>) (visit_constraint s Sense_E i) = spec_customer_coverage \<nu> gr i"
      by (simp add: holds_def spec_customer_coverage_def visit_constraint_def f(4))
  next
    fix i
    assume "i \<in> set (Customer_Idx gr)"
    then have "i \<in> set (V_Prime_N_plus_1_sequence s)" using mem by simp
    with dist show "well_formed (visit_constraint s Sense_E i)"
      by (rule well_formed_visit)
  qed (simp add: visit_constraint_def)
  show "list_all2 (\<lambda>c i. c_sense c = Sense_L \<and> well_formed c
                \<and> (\<forall>\<nu>. holds (value_of \<nu>) c = spec_station_bound \<nu> gr i))
           (rs_constraints s) (RS_Idx gr)"
    unfolding rs_constraints_def f(2) list_all2_map1
  proof (rule list_all2_same[THEN iffD2], intro ballI conjI allI)
    fix i \<nu>
    assume "i \<in> set (RS_Idx gr)"
    then have i: "i \<in> set (V_Prime_N_plus_1_sequence s)" using mem by simp
    from lhs_value_visit[OF dist i]
    show "holds (value_of \<nu>) (visit_constraint s Sense_L i) = spec_station_bound \<nu> gr i"
      by (simp add: holds_def spec_station_bound_def visit_constraint_def f(4))
  next
    fix i
    assume "i \<in> set (RS_Idx gr)"
    then have "i \<in> set (V_Prime_N_plus_1_sequence s)" using mem by simp
    with dist show "well_formed (visit_constraint s Sense_L i)"
      by (rule well_formed_visit)
  qed (simp add: visit_constraint_def)
  show "filter (states_flow gr j) (customer_constraints s) = []"
    unfolding customer_constraints_def f(1) filter_empty_conv
    using visit_not_flow[OF dist mem] by auto
  show "filter (states_flow gr j) (rs_constraints s) = []"
    unfolding rs_constraints_def f(2) filter_empty_conv
    using visit_not_flow[OF dist mem] by auto
qed

lemma built_flow_rows:
  assumes g: "Graph_EVRP_TW_init ds cs rs params R = Inr gr" and d: "ds \<noteq> []"
    and s: "solver_fields gr l0 = Inr s"
  shows "list_all2 (\<lambda>c j. c_sense c = Sense_E \<and> well_formed c
                \<and> (\<forall>\<nu>. holds (value_of \<nu>) c = spec_flow_conservation \<nu> gr j))
           (route_consistency_constraints s) (Customer_Idx gr @ RS_Idx gr)"
    and "distinct (Customer_Idx gr @ RS_Idx gr)"
    and "j \<in> set (Customer_Idx gr @ RS_Idx gr) \<Longrightarrow>
           length (filter (states_flow gr j) (route_consistency_constraints s)) = 1"
proof -
  note f = solver_fields_built[OF g s]
  have ds: "distinct (V_Prime_N_plus_1_sequence s)"
    using built_graph_successors(1)[OF g d] by (simp add: f(4))
  have dp: "distinct (V_Prime_0_sequence s)"
    using built_graph_predecessors(1)[OF g d] by (simp add: f(5))
  show dist: "distinct (Customer_Idx gr @ RS_Idx gr)"
    using built_graph_successors(1)[OF g d] by (simp add: spec_successors_def)
  show "list_all2 (\<lambda>c j. c_sense c = Sense_E \<and> well_formed c
                \<and> (\<forall>\<nu>. holds (value_of \<nu>) c = spec_flow_conservation \<nu> gr j))
           (route_consistency_constraints s) (Customer_Idx gr @ RS_Idx gr)"
    unfolding route_consistency_constraints_def f(6) list_all2_map1
  proof (rule list_all2_same[THEN iffD2], intro ballI conjI allI)
    fix j \<nu>
    show "holds (value_of \<nu>) (route_consistency_constraint s j) = spec_flow_conservation \<nu> gr j"
      by (rule holds_route_consistency[OF g s])
  next
    fix j
    show "well_formed (route_consistency_constraint s j)"
      using ds dp by (rule well_formed_route_consistency)
  qed (simp add: route_consistency_constraint_def Let_def)
  show "length (filter (states_flow gr j) (route_consistency_constraints s)) = 1"
    if j: "j \<in> set (Customer_Idx gr @ RS_Idx gr)"
  proof -
    have "filter (states_flow gr j) (route_consistency_constraints s)
        = map (route_consistency_constraint s)
            (filter (\<lambda>j'. states_flow gr j (route_consistency_constraint s j'))
               (Customer_Idx gr @ RS_Idx gr))"
      by (simp add: route_consistency_constraints_def f(6) filter_map comp_def)
    also have "filter (\<lambda>j'. states_flow gr j (route_consistency_constraint s j'))
               (Customer_Idx gr @ RS_Idx gr)
        = filter (\<lambda>j'. j' = j) (Customer_Idx gr @ RS_Idx gr)"
      by (rule filter_cong) (simp_all add: states_flow_route_consistency[OF g d s j])
    finally show ?thesis
      using length_filter_eq[OF dist j] by simp
  qed
qed

lemma solver_built_speed:
  assumes g: "Graph_EVRP_TW_init ds cs rs params R = Inr gr" and d: "ds \<noteq> []"
    and e: "EVPR_TW_Solver_init gr l0 = Inr (s, vars, cons)"
  shows "g_v gr \<noteq> 0"
proof -
  note s = solver_init_Inr(1)[OF e]
  note f = solver_fields_built[OF g s]
  obtain tc where tc: "travel_time_customer_constraints s = Inr tc"
    using solver_init_Inr(2)[OF e] by blast
  let ?n = "int (length (Nodes gr)) - 1"
  let ?arcs = "spec_arcs (0 # Customer_Idx gr) (spec_successors gr)"
  have size: "2 \<le> int (length (Nodes gr))"
    using built_graph_size[OF g d] by simp
  have rows: "list_all2 (\<lambda>c arc. travel_time_customer_row s (fst arc) (snd arc) = Inr c) tc ?arcs"
    using pair_loop_rows[OF tc[unfolded travel_time_customer_constraints_def]]
    by (simp add: f(1,3,4))
  have "(0, ?n) \<in> set ?arcs"
    using size by (auto simp: spec_arcs_def spec_successors_def)
  then obtain k where k: "k < length ?arcs" "?arcs ! k = (0, ?n)"
    by (auto simp: in_set_conv_nth)
  have "travel_time_customer_row s (fst (?arcs ! k)) (snd (?arcs ! k)) = Inr (tc ! k)"
    using rows k(1) by (simp add: list_all2_conv_all_nth)
  then have row: "travel_time_customer_row s 0 ?n = Inr (tc ! k)"
    by (simp add: k(2))
  have i: "(0::int) \<le> 0" "0 < int (length (Nodes gr))" and j: "0 \<le> ?n" "?n < int (length (Nodes gr))"
    using size by linarith+
  note r = built_reads(1)[OF g s i j]
  from row obtain a where
    "fl_add (fl_add (fl_div (distance_matrix gr ! nat 0 ! nat ?n) (g_v gr)) a) (Some (l_0 s)) \<noteq> None"
    by (auto simp: travel_time_customer_row_def r cplex_number_def
        split: sum.splits option.splits)
  then obtain x where "fl_div (distance_matrix gr ! nat 0 ! nat ?n) (g_v gr) = Some x"
    by (auto simp: fl_add_def split: option.splits)
  then show ?thesis
    by (auto simp: fl_div_Some)
qed

lemma zero_speed_raises:
  assumes "Graph_EVRP_TW_init ds cs rs params R = Inr gr" and "ds \<noteq> []" and "g_v gr = 0"
  shows "isl (EVPR_TW_Solver_init gr l0)"
proof (cases "EVPR_TW_Solver_init gr l0")
  case (Inl e)
  then show ?thesis by simp
next
  case (Inr r)
  obtain s vars cons where "r = (s, vars, cons)" by (cases r)
  with Inr solver_built_speed[OF assms(1,2), of l0 s vars cons] assms(3)
  show ?thesis by simp
qed

section \<open>Instances on which the formulation is built\<close>

text \<open>
  The constructor of the solver raises when a coefficient is not a finite number, which
  happens for the speed \<open>v = 0\<close> and for inputs so large that a product or a sum
  overflows. On a moderate instance (all coordinates, service times, demands, vehicle
  parameters and \<open>l_0\<close> of magnitude at most \<open>2 ^ 100\<close>, the speed of magnitude at least
  \<open>1 / 2 ^ 100\<close>) and with at least one depot it returns.
\<close>

lemma for_each_succeeds:
  "list_all (\<lambda>x. \<exists>ys. body x = Inr ys) xs \<Longrightarrow> \<exists>zs. for_each xs body = Inr zs"
  by (induction xs) auto

lemma pair_loop_succeeds:
  assumes "\<And>i j. i \<in> set origins \<Longrightarrow> j \<in> set successors \<Longrightarrow> i \<noteq> j \<Longrightarrow> \<exists>c. row i j = Inr c"
  shows "\<exists>rows. pair_loop origins successors row = Inr rows"
proof -
  have "row i j = Inr (projr (row i j))"
    if "i \<in> set origins" "j \<in> set successors" "i \<noteq> j" for i j
    using assms[OF that] by auto
  from pair_loop_Inr[of origins successors row "\<lambda>i j. projr (row i j)", OF this]
  show ?thesis by blast
qed

lemma moderate_product:
  assumes "\<bar>a\<bar> \<le> 2 ^ m" "\<bar>b\<bar> \<le> 2 ^ n"
  shows "\<bar>a * b\<bar> \<le> (2::real) ^ (m + n)"
proof -
  have "\<bar>a\<bar> * \<bar>b\<bar> \<le> 2 ^ m * 2 ^ n"
    using assms by (intro mult_mono) simp_all
  then show ?thesis by (simp add: abs_mult power_add)
qed

lemma moderate_quotient:
  assumes "\<bar>d\<bar> \<le> 2 ^ m" "1 / 2 ^ n \<le> \<bar>v\<bar>"
  shows "\<bar>d / v\<bar> \<le> (2::real) ^ (m + n)" and "v \<noteq> 0"
proof -
  have pos: "(0::real) < 1 / 2 ^ n" by simp
  then have v: "0 < \<bar>v\<bar>" using assms(2) by (rule less_le_trans)
  then show "v \<noteq> 0" by simp
  have "1 \<le> \<bar>v\<bar> * 2 ^ n"
    using assms(2) by (simp add: field_simps)
  then have "1 / \<bar>v\<bar> \<le> 2 ^ n"
    using v by (simp add: field_simps)
  then have iv: "\<bar>1 / v\<bar> \<le> 2 ^ n" by simp
  have "\<bar>d * (1 / v)\<bar> \<le> 2 ^ (m + n)"
    using assms(1) iv by (rule moderate_product)
  then show "\<bar>d / v\<bar> \<le> 2 ^ (m + n)" by simp
qed

lemma moderate_sum:
  assumes "\<bar>a\<bar> \<le> 2 ^ m" "\<bar>b\<bar> \<le> 2 ^ n" "m < k" "n < k"
  shows "\<bar>a + b\<bar> \<le> (2::real) ^ k"
proof -
  have "(2::real) ^ m \<le> 2 ^ (k - 1)" "(2::real) ^ n \<le> 2 ^ (k - 1)"
    using assms(3,4) by (simp_all add: power_increasing)
  then have "\<bar>a\<bar> + \<bar>b\<bar> \<le> 2 ^ (k - 1) + 2 ^ (k - 1)"
    using assms(1,2) by linarith
  also have "\<dots> = (2::real) ^ k"
    using assms(3) by (cases k) simp_all
  finally show ?thesis by linarith
qed

lemma fl_Some: "\<bar>x\<bar> \<le> 2 ^ k \<Longrightarrow> k \<le> 300 \<Longrightarrow> fl x = Some x"
proof -
  assume "\<bar>x\<bar> \<le> 2 ^ k" "k \<le> 300"
  moreover have "(2::real) ^ k \<le> 2 ^ 300" using \<open>k \<le> 300\<close> by (rule power_increasing) simp
  ultimately have "\<bar>x\<bar> \<le> 2 ^ 300" by linarith
  then show ?thesis by (simp add: fl_def moderate_finite)
qed

lemma moderate_built:
  assumes m: "list_all moderate_node ds" "list_all moderate_node cs" "list_all moderate_node rs"
    and p: "moderate_parameters params"
    and g: "Graph_EVRP_TW_init ds cs rs params R = Inr gr"
  shows "a < length (Nodes gr) \<Longrightarrow> b < length (Nodes gr) \<Longrightarrow>
           \<exists>d. distance_matrix gr ! a ! b = Some d \<and> \<bar>d\<bar> \<le> 2 ^ 102"
    and "a < length (Nodes gr) \<Longrightarrow> \<bar>ServiceTime (Nodes gr ! a)\<bar> \<le> 2 ^ 100"
    and "a < length (Nodes gr) \<Longrightarrow> \<bar>Demand (Nodes gr ! a)\<bar> \<le> 2 ^ 100"
    and "\<bar>g_Q gr\<bar> \<le> 2 ^ 100" and "\<bar>g_C gr\<bar> \<le> 2 ^ 100" and "\<bar>g_r gr\<bar> \<le> 2 ^ 100"
    and "\<bar>g_g gr\<bar> \<le> 2 ^ 100" and "1 / 2 ^ 100 \<le> \<bar>g_v gr\<bar>"
proof -
  note f = Graph_init_fields[OF g]
  have all: "list_all moderate_node (Nodes gr)"
    unfolding f(1) using m by (rule moderate_nodes_built)
  have node: "moderate_node (Nodes gr ! a)" if "a < length (Nodes gr)" for a
    using all that by (simp add: list_all_length)
  show "\<exists>d. distance_matrix gr ! a ! b = Some d \<and> \<bar>d\<bar> \<le> 2 ^ 102"
    if a: "a < length (Nodes gr)" and b: "b < length (Nodes gr)"
  proof -
    obtain d where d: "euclidean_distance (Position (Nodes gr ! a)) (Position (Nodes gr ! b))
        = Inr (Some d)" "0 \<le> d" "d \<le> 2 ^ 102"
      using moderate_distance[of "Position (Nodes gr ! a)" "Position (Nodes gr ! b)"]
        node[OF a] node[OF b] by (auto simp: moderate_node_def)
    have "distance_matrix gr ! a ! b = Some d"
      using generate_distance_matrix_Inr(2)[OF f(5) a b] d(1) by simp
    then show ?thesis using d(2,3) by simp
  qed
  show "\<bar>ServiceTime (Nodes gr ! a)\<bar> \<le> 2 ^ 100" if "a < length (Nodes gr)"
    using node[OF that] by (simp add: moderate_node_def moderate_def)
  show "\<bar>Demand (Nodes gr ! a)\<bar> \<le> 2 ^ 100" if "a < length (Nodes gr)"
    using node[OF that] by (simp add: moderate_node_def moderate_def)
  show "\<bar>g_Q gr\<bar> \<le> 2 ^ 100" "\<bar>g_C gr\<bar> \<le> 2 ^ 100" "\<bar>g_r gr\<bar> \<le> 2 ^ 100"
    "\<bar>g_g gr\<bar> \<le> 2 ^ 100" "1 / 2 ^ 100 \<le> \<bar>g_v gr\<bar>"
    using p by (simp_all add: moderate_parameters_def f(10-14) moderate_def)
qed

lemma moderate_rows:
  assumes m: "list_all moderate_node ds" "list_all moderate_node cs" "list_all moderate_node rs"
    and p: "moderate_parameters params" and l: "moderate l0"
    and g: "Graph_EVRP_TW_init ds cs rs params R = Inr gr"
    and s: "solver_fields gr l0 = Inr s"
    and i: "0 \<le> i" "i < int (length (Nodes gr))"
    and j: "0 \<le> j" "j < int (length (Nodes gr))"
  shows "\<exists>c. travel_time_customer_row s i j = Inr c"
    and "\<exists>c. travel_time_rs_row s i j = Inr c"
    and "\<exists>c. load_capacity_row s i j = Inr c"
    and "\<exists>c. battery_customer_row s i j = Inr c"
    and "\<exists>c. battery_rs_row s i j = Inr c"
    and "\<exists>d. py_get2 (s_distance_matrix s) i j = Inr (Some d)"
proof -
  note f = solver_fields_built[OF g s]
  note r = built_reads[OF g s i j]
  note b = moderate_built[OF m p g]
  have ni: "nat i < length (Nodes gr)" and nj: "nat j < length (Nodes gr)"
    using i j by simp_all
  obtain d where d: "distance_matrix gr ! nat i ! nat j = Some d" and bd: "\<bar>d\<bar> \<le> 2 ^ 102"
    using b(1)[OF ni nj] by blast
  have bl: "\<bar>l0\<bar> \<le> 2 ^ 100" using l by (simp add: moderate_def)
  have sv: "\<bar>spec_service gr i\<bar> \<le> 2 ^ 100"
    using b(2)[OF ni] by (simp add: spec_service_def)
  note q = moderate_quotient[OF bd b(8)]
  have t1: "\<bar>d / g_v gr + spec_service gr i\<bar> \<le> 2 ^ 203"
    using q(1) sv by (rule moderate_sum) simp_all
  have t2: "\<bar>d / g_v gr + spec_service gr i + l0\<bar> \<le> 2 ^ 204"
    using t1 bl by (rule moderate_sum) simp_all
  have "fl_add (fl_add (fl_div (Some d) (g_v gr)) (Some (spec_service gr i))) (Some l0)
      = Some (d / g_v gr + spec_service gr i + l0)"
    using q(2) fl_Some[OF q(1)] fl_Some[OF t1] fl_Some[OF t2]
    by (simp add: fl_add_def fl_div_def)
  then show "\<exists>c. travel_time_customer_row s i j = Inr c"
    by (simp add: travel_time_customer_row_def r(1,3) f(11) d cplex_number_def)
  have gq: "\<bar>g_g gr * g_Q gr\<bar> \<le> 2 ^ (100 + 100)"
    using b(7,4) by (rule moderate_product)
  have t3: "\<bar>l0 + g_g gr * g_Q gr\<bar> \<le> 2 ^ 201"
    using bl gq by (rule moderate_sum) simp_all
  have "fl_add (Some l0) (fl_mul (Some (g_g gr)) (Some (g_Q gr))) = Some (l0 + g_g gr * g_Q gr)"
    using fl_Some[OF gq] fl_Some[OF t3] by (simp add: fl_add_def fl_mul_def)
  then show "\<exists>c. travel_time_rs_row s i j = Inr c"
    by (simp add: travel_time_rs_row_def f(8,10,11) cplex_number_def)
  have t4: "\<bar>g_C gr + Demand (Nodes gr ! nat i)\<bar> \<le> 2 ^ 101"
    using b(5) b(3)[OF ni] by (rule moderate_sum) simp_all
  have "fl_add (Some (g_C gr)) (Some (Demand (Nodes gr ! nat i)))
      = Some (g_C gr + Demand (Nodes gr ! nat i))"
    using fl_Some[OF t4] by (simp add: fl_add_def)
  then show "\<exists>c. load_capacity_row s i j = Inr c"
    by (simp add: load_capacity_row_def r(4) f(7) cplex_number_def)
  have hd: "\<bar>g_r gr * d\<bar> \<le> 2 ^ (100 + 102)"
    using b(6) bd by (rule moderate_product)
  have t5: "\<bar>g_r gr * d + g_Q gr\<bar> \<le> 2 ^ 203"
    using hd b(4) by (rule moderate_sum) simp_all
  have bm: "fl_mul (Some (g_r gr)) (Some d) = Some (g_r gr * d)"
    using fl_Some[OF hd] by (simp add: fl_mul_def)
  have "fl_add (fl_mul (Some (g_r gr)) (Some d)) (Some (g_Q gr)) = Some (g_r gr * d + g_Q gr)"
    using fl_Some[OF t5] by (simp add: bm fl_add_def)
  then show "\<exists>c. battery_customer_row s i j = Inr c"
    by (simp add: battery_customer_row_def r(2) f(8,9) d cplex_number_def)
  show "\<exists>c. battery_rs_row s i j = Inr c"
    using bm by (simp add: battery_rs_row_def r(2) f(8,9) d cplex_number_def)
  show "\<exists>d. py_get2 (s_distance_matrix s) i j = Inr (Some d)"
    using r(2) d by simp
qed

lemma moderate_solver_init:
  assumes m: "list_all moderate_node ds" "list_all moderate_node cs" "list_all moderate_node rs"
    and p: "moderate_parameters params" and l: "moderate l0" and d: "ds \<noteq> []"
  shows "\<exists>gr s vars cons. Graph_EVRP_TW_init ds cs rs params R = Inr gr
           \<and> EVPR_TW_Solver_init gr l0 = Inr (s, vars, cons)"
proof -
  obtain gr where g: "Graph_EVRP_TW_init ds cs rs params R = Inr gr"
    using moderate_graph[OF m p] by blast
  obtain s where s: "solver_fields gr l0 = Inr s"
    using built_solver_fields[OF g] by blast
  note f = solver_fields_built[OF g s]
  note gf = Graph_init_fields[OF g]
  note rows = moderate_rows[OF m p l g s]
  note succ = built_graph_successors(2)[OF g d]
  note pred = built_graph_predecessors(2)[OF g d]
  have rng: "0 \<le> i \<and> i < int (length (Nodes gr))"
    if "i \<in> set (py_range 0 (model_size s))" for i
    using that by (simp add: f(13) py_range_def)
  have orig: "0 \<le> i \<and> i < int (length (Nodes gr))"
    if "i \<in> set (0 # Customer_Idx gr @ RS_Idx gr)" for i
    using that pred[of i] by (simp add: spec_predecessors_def)
  obtain coef where coef: "objective_function_coef s = Inr coef"
    and cf: "list_all2 (\<lambda>c arc. py_get2 (s_distance_matrix s) (fst arc) (snd arc) = Inr c) coef
        (spec_arcs (py_range 0 (model_size s)) (py_range 0 (model_size s)))"
  proof -
    have "\<exists>rows. pair_loop (py_range 0 (model_size s)) (py_range 0 (model_size s))
            (py_get2 (s_distance_matrix s)) = Inr rows"
    proof (rule pair_loop_succeeds)
      fix i j
      assume "i \<in> set (py_range 0 (model_size s))" "j \<in> set (py_range 0 (model_size s))"
      then show "\<exists>c. py_get2 (s_distance_matrix s) i j = Inr c"
        using rows(6)[of i j] rng by blast
    qed
    then obtain coef where c: "objective_function_coef s = Inr coef"
      by (auto simp: objective_function_coef_def)
    from c have "pair_loop (py_range 0 (model_size s)) (py_range 0 (model_size s))
            (py_get2 (s_distance_matrix s)) = Inr coef"
      by (simp add: objective_function_coef_def)
    from pair_loop_rows[OF this] c that show ?thesis by blast
  qed
  have "list_all (\<lambda>c. \<exists>ys. (case cplex_number c of Inl e \<Rightarrow> Inl e | Inr x \<Rightarrow> Inr [x]) = Inr ys) coef"
    unfolding list_all_length
  proof (intro allI impI)
    fix n
    assume n: "n < length coef"
    let ?arc = "spec_arcs (py_range 0 (model_size s)) (py_range 0 (model_size s)) ! n"
    have len: "length coef = length (spec_arcs (py_range 0 (model_size s)) (py_range 0 (model_size s)))"
      using cf by (rule list_all2_lengthD)
    have rd: "py_get2 (s_distance_matrix s) (fst ?arc) (snd ?arc) = Inr (coef ! n)"
      using cf n by (simp add: list_all2_conv_all_nth)
    have "?arc \<in> set (spec_arcs (py_range 0 (model_size s)) (py_range 0 (model_size s)))"
      using n len by simp
    from spec_arcs_member[OF this]
    have "0 \<le> fst ?arc \<and> fst ?arc < int (length (Nodes gr))"
      "0 \<le> snd ?arc \<and> snd ?arc < int (length (Nodes gr))"
      using rng by blast+
    then obtain dd where "py_get2 (s_distance_matrix s) (fst ?arc) (snd ?arc) = Inr (Some dd)"
      using rows(6)[of "fst ?arc" "snd ?arc"] by blast
    then have "coef ! n = Some dd" using rd by simp
    then show "\<exists>ys. (case cplex_number (coef ! n) of Inl e \<Rightarrow> Inl e | Inr x \<Rightarrow> Inr [x]) = Inr ys"
      by (simp add: cplex_number_def)
  qed
  from for_each_succeeds[where xs = coef
      and body = "\<lambda>d. case cplex_number d of Inl e \<Rightarrow> Inl e | Inr x \<Rightarrow> Inr [x]", OF this]
  obtain obj where obj:
    "for_each coef (\<lambda>d. case cplex_number d of Inl e \<Rightarrow> Inl e | Inr x \<Rightarrow> Inr [x]) = Inr obj"
    by blast
  have "list_all (\<lambda>i. \<exists>ys. node_variables s i = Inr ys) (py_range 0 (model_size s))"
    unfolding list_all_iff
  proof
    fix i
    assume "i \<in> set (py_range 0 (model_size s))"
    then have "0 \<le> i" "i < int (length (CustomerTimeWindow s))"
      using rng[of i] by (simp_all add: f(14) gf(6))
    then show "\<exists>ys. node_variables s i = Inr ys"
      by (simp add: node_variables_def py_get_in_range)
  qed
  from for_each_succeeds[where xs = "py_range 0 (model_size s)" and body = "node_variables s",
      OF this]
  obtain vs where vs: "for_each (py_range 0 (model_size s)) (node_variables s) = Inr vs"
    by blast
  have vars: "\<exists>vars. set_objective_function s = Inr vars"
    by (simp add: set_objective_function_def coef obj vs)
  have r: "\<exists>c. travel_time_customer_row s i j = Inr c" "\<exists>c. travel_time_rs_row s i j = Inr c"
    "\<exists>c. load_capacity_row s i j = Inr c" "\<exists>c. battery_customer_row s i j = Inr c"
    "\<exists>c. battery_rs_row s i j = Inr c"
    if "i \<in> set (spec_predecessors gr)" "j \<in> set (spec_successors gr)" for i j
    using rows(1-5)[of i j] pred[OF that(1)] succ[OF that(2)] by blast+
  have sub: "set (0 # Customer_Idx gr) \<subseteq> set (spec_predecessors gr)"
    "set (RS_Idx gr) \<subseteq> set (spec_predecessors gr)"
    "set (Customer_Idx gr) \<subseteq> set (spec_predecessors gr)"
    "set (0 # RS_Idx gr) \<subseteq> set (spec_predecessors gr)"
    by (auto simp: spec_predecessors_def)
  have tc: "\<exists>tc. travel_time_customer_constraints s = Inr tc"
    unfolding travel_time_customer_constraints_def f(1,3,4)
    by (rule pair_loop_succeeds, rule r(1)) (use sub(1) in auto)
  have tr: "\<exists>tr. travel_time_rs_constraints s = Inr tr"
    unfolding travel_time_rs_constraints_def f(2,4)
    by (rule pair_loop_succeeds, rule r(2)) (use sub(2) in auto)
  have lc: "\<exists>lc. load_capacity_constraints s = Inr lc"
    unfolding load_capacity_constraints_def f(4,5)
    by (rule pair_loop_succeeds, rule r(3))
  have bc: "\<exists>bc. battery_customer_constraints s = Inr bc"
    unfolding battery_customer_constraints_def f(1,4)
    by (rule pair_loop_succeeds, rule r(4)) (use sub(3) in auto)
  have br: "\<exists>br. battery_rs_constraints s = Inr br"
    unfolding battery_rs_constraints_def f(2,3,4)
    by (rule pair_loop_succeeds, rule r(5)) (use sub(4) in auto)
  have "\<exists>cons. set_constraints s = Inr cons"
    using tc tr lc bc br by (auto simp: set_constraints_def)
  with vars have "\<exists>vars cons. EVPR_TW_Solver_init gr l0 = Inr (s, vars, cons)"
    by (auto simp: EVPR_TW_Solver_init_def s)
  with g show ?thesis by blast
qed

lemma ex_solver_built:
  "\<exists>gr s vars cons.
     Graph_EVRP_TW_init [ex_depot] [ex_customer] [ex_station] ex_parameters 1 = Inr gr
   \<and> EVPR_TW_Solver_init gr 1000 = Inr (s, vars, cons)"
  by (rule moderate_solver_init[OF ex_moderate(1,3,4,6,7)]) simp

section \<open>The constraints of the specification\<close>

text \<open>
  The following four theorems are about the constraints the formulator generates, so
  they are stated for every graph built from at least one depot on which the constructor
  of the solver returns; the small instance is one. A generated row is compared with the
  constraint of the specification under every assignment \<open>\<nu>\<close> of real numbers to the
  variables \<open>x_i_j\<close>, \<open>tao_i\<close>, \<open>u_i\<close> and \<open>y_i\<close>, the names in the row being read back
  by \<open>var_of_name\<close>. A row is \<open>well_formed\<close> when it has as many coefficients as names,
  no name occurs in it twice and every name is the name of a variable.
\<close>

text \<open>
  Claim C6. For every customer index \<open>i\<close> the formulator generates an equality constraint
  that holds exactly when the sum of \<open>x_i_j\<close> over the successors \<open>j\<close> other than \<open>i\<close>
  (customers, station replicas and the end depot) is 1, and for every station index an
  inequality constraint that holds exactly when that sum is at most 1: these are the
  first rows of the model, one per index, in the order of the indices.
\<close>

theorem customer_and_station_visit_constraints:
  assumes "Graph_EVRP_TW_init ds cs rs params R = Inr gr" and "ds \<noteq> []"
    and "EVPR_TW_Solver_init gr l0 = Inr (s, vars, cons)"
  shows "\<exists>cust stat rest.
           cons = cust @ stat @ rest
         \<and> list_all2 (\<lambda>c i. c_sense c = Sense_E \<and> well_formed c
                \<and> (\<forall>\<nu>. holds (value_of \<nu>) c = spec_customer_coverage \<nu> gr i))
              cust (Customer_Idx gr)
         \<and> list_all2 (\<lambda>c i. c_sense c = Sense_L \<and> well_formed c
                \<and> (\<forall>\<nu>. holds (value_of \<nu>) c = spec_station_bound \<nu> gr i))
              stat (RS_Idx gr)"
proof -
  note s = solver_init_Inr(1)[OF assms(3)]
  obtain tc tr lc bc br where
    cons: "cons = customer_constraints s @ rs_constraints s
                    @ route_consistency_constraints s @ tc @ tr @ lc @ bc @ br"
    using solver_init_Inr(2)[OF assms(3)] by blast
  show ?thesis
    by (intro exI conjI)
      (rule cons, rule built_visit_rows(1)[OF assms(1,2) s], rule built_visit_rows(2)[OF assms(1,2) s])
qed

theorem customer_and_station_visit_constraints_witness:
  "\<exists>gr s vars cons.
     Graph_EVRP_TW_init [ex_depot] [ex_customer] [ex_station] ex_parameters 1 = Inr gr
   \<and> [ex_depot] \<noteq> []
   \<and> EVPR_TW_Solver_init gr 1000 = Inr (s, vars, cons)
   \<and> (\<exists>cust stat rest.
           cons = cust @ stat @ rest
         \<and> list_all2 (\<lambda>c i. c_sense c = Sense_E \<and> well_formed c
                \<and> (\<forall>\<nu>. holds (value_of \<nu>) c = spec_customer_coverage \<nu> gr i))
              cust (Customer_Idx gr)
         \<and> list_all2 (\<lambda>c i. c_sense c = Sense_L \<and> well_formed c
                \<and> (\<forall>\<nu>. holds (value_of \<nu>) c = spec_station_bound \<nu> gr i))
              stat (RS_Idx gr))"
proof -
  obtain gr s vars cons where
    g: "Graph_EVRP_TW_init [ex_depot] [ex_customer] [ex_station] ex_parameters 1 = Inr gr"
    and e: "EVPR_TW_Solver_init gr 1000 = Inr (s, vars, cons)"
    using ex_solver_built by blast
  have d: "[ex_depot] \<noteq> []" by simp
  from customer_and_station_visit_constraints[OF g d e] g d e show ?thesis
    by blast
qed

text \<open>
  Claim C3. For every customer and station index \<open>j\<close> the formulator generates exactly
  one equality constraint stating that the sum of the arcs entering \<open>j\<close> from its
  predecessors equals the sum of the arcs leaving \<open>j\<close> for its successors. The rows that
  follow the customer and station rows are these constraints, one per index in the order
  of the indices, which are distinct; and among all the constraints of the model exactly
  one is an equality that holds, under every assignment, exactly when inflow equals
  outflow at \<open>j\<close>.
\<close>

theorem flow_conservation_constraints:
  assumes "Graph_EVRP_TW_init ds cs rs params R = Inr gr" and "ds \<noteq> []"
    and "EVPR_TW_Solver_init gr l0 = Inr (s, vars, cons)"
  shows "\<exists>pre flow post.
           cons = pre @ flow @ post
         \<and> length pre = length (Customer_Idx gr) + length (RS_Idx gr)
         \<and> list_all2 (\<lambda>c j. c_sense c = Sense_E \<and> well_formed c
                \<and> (\<forall>\<nu>. holds (value_of \<nu>) c = spec_flow_conservation \<nu> gr j))
              flow (Customer_Idx gr @ RS_Idx gr)
         \<and> distinct (Customer_Idx gr @ RS_Idx gr)
         \<and> list_all (\<lambda>j. length (filter (states_flow gr j) cons) = 1)
              (Customer_Idx gr @ RS_Idx gr)"
proof -
  note s = solver_init_Inr(1)[OF assms(3)]
  note f = solver_fields_built[OF assms(1) s]
  obtain tc tr lc bc br where
    tc: "travel_time_customer_constraints s = Inr tc"
    and tr: "travel_time_rs_constraints s = Inr tr"
    and lc: "load_capacity_constraints s = Inr lc"
    and bc: "battery_customer_constraints s = Inr bc"
    and br: "battery_rs_constraints s = Inr br"
    and cons: "cons = customer_constraints s @ rs_constraints s
                    @ route_consistency_constraints s @ tc @ tr @ lc @ bc @ br"
    using solver_init_Inr(2)[OF assms(3)] by blast
  have split: "cons = (customer_constraints s @ rs_constraints s)
          @ route_consistency_constraints s @ (tc @ tr @ lc @ bc @ br)"
    using cons by simp
  have len: "length (customer_constraints s @ rs_constraints s)
      = length (Customer_Idx gr) + length (RS_Idx gr)"
    by (simp add: customer_constraints_def rs_constraints_def f(1,2))
  have L: "filter (states_flow gr j) tc = []" "filter (states_flow gr j) tr = []"
    "filter (states_flow gr j) lc = []" "filter (states_flow gr j) bc = []"
    "filter (states_flow gr j) br = []" for j
    using list_all2_sense_L[OF built_travel_time_customer[OF assms(1,2) s tc]]
      list_all2_sense_L[OF built_travel_time_rs[OF assms(1,2) s tr]]
      built_load_capacity[OF assms(1,2) s lc]
      list_all2_sense_L[OF built_battery_customer[OF assms(1,2) s bc]]
      list_all2_sense_L[OF built_battery_rs[OF assms(1,2) s br]]
    by (simp_all add: filter_states_flow_L)
  have one: "list_all (\<lambda>j. length (filter (states_flow gr j) cons) = 1)
              (Customer_Idx gr @ RS_Idx gr)"
    unfolding list_all_iff
  proof
    fix j
    assume "j \<in> set (Customer_Idx gr @ RS_Idx gr)"
    then show "length (filter (states_flow gr j) cons) = 1"
      using built_flow_rows(3)[OF assms(1,2) s] built_visit_rows(3,4)[OF assms(1,2) s, of j] L[of j]
      by (simp add: cons)
  qed
  show ?thesis
    by (intro exI conjI)
      (rule split, rule len, rule built_flow_rows(1)[OF assms(1,2) s],
       rule built_flow_rows(2)[OF assms(1,2) s], rule one)
qed

theorem flow_conservation_constraints_witness:
  "\<exists>gr s vars cons.
     Graph_EVRP_TW_init [ex_depot] [ex_customer] [ex_station] ex_parameters 1 = Inr gr
   \<and> [ex_depot] \<noteq> []
   \<and> EVPR_TW_Solver_init gr 1000 = Inr (s, vars, cons)
   \<and> (\<exists>pre flow post.
           cons = pre @ flow @ post
         \<and> length pre = length (Customer_Idx gr) + length (RS_Idx gr)
         \<and> list_all2 (\<lambda>c j. c_sense c = Sense_E \<and> well_formed c
                \<and> (\<forall>\<nu>. holds (value_of \<nu>) c = spec_flow_conservation \<nu> gr j))
              flow (Customer_Idx gr @ RS_Idx gr)
         \<and> distinct (Customer_Idx gr @ RS_Idx gr)
         \<and> list_all (\<lambda>j. length (filter (states_flow gr j) cons) = 1)
              (Customer_Idx gr @ RS_Idx gr))"
proof -
  obtain gr s vars cons where
    g: "Graph_EVRP_TW_init [ex_depot] [ex_customer] [ex_station] ex_parameters 1 = Inr gr"
    and e: "EVPR_TW_Solver_init gr 1000 = Inr (s, vars, cons)"
    using ex_solver_built by blast
  have d: "[ex_depot] \<noteq> []" by simp
  from flow_conservation_constraints[OF g d e] g d e show ?thesis
    by blast
qed

text \<open>
  Claim C4. The time constraints generated are, pair by pair, those of the
  specification. They follow the customer, station and flow rows: first one for every
  arc \<open>(i, j)\<close>, \<open>i \<noteq> j\<close>, from the start depot or a customer to a successor, which
  holds exactly when \<open>tao_i - tao_j + (travel_time(i,j) + service(i) + l_0) * x_i_j \<le> l_0\<close>,
  then one for every such arc from a station replica, which holds exactly when
  \<open>tao_i - tao_j + (l_0 + g * Q) * x_i_j - g * y_i \<le> l_0\<close>. The travel time is the
  distance divided by the velocity \<open>v\<close>, which is not 0 on such a graph: with \<open>v = 0\<close>
  the constructor raises at the first time row.
\<close>

theorem time_propagation_constraints:
  assumes "Graph_EVRP_TW_init ds cs rs params R = Inr gr" and "ds \<noteq> []"
    and "EVPR_TW_Solver_init gr l0 = Inr (s, vars, cons)"
  shows "g_v gr \<noteq> 0
       \<and> (\<exists>pre tc tr post.
           cons = pre @ tc @ tr @ post
         \<and> length pre = 2 * (length (Customer_Idx gr) + length (RS_Idx gr))
         \<and> list_all2 (\<lambda>c arc. c_sense c = Sense_L \<and> well_formed c
                \<and> (\<forall>\<nu>. holds (value_of \<nu>) c = spec_time_customer \<nu> gr l0 arc)) tc
              (spec_arcs (0 # Customer_Idx gr) (spec_successors gr))
         \<and> list_all2 (\<lambda>c arc. c_sense c = Sense_L \<and> well_formed c
                \<and> (\<forall>\<nu>. holds (value_of \<nu>) c = spec_time_station \<nu> gr l0 arc)) tr
              (spec_arcs (RS_Idx gr) (spec_successors gr)))"
proof -
  note s = solver_init_Inr(1)[OF assms(3)]
  note f = solver_fields_built[OF assms(1) s]
  obtain tc tr lc bc br where
    tc: "travel_time_customer_constraints s = Inr tc"
    and tr: "travel_time_rs_constraints s = Inr tr"
    and cons: "cons = customer_constraints s @ rs_constraints s
                    @ route_consistency_constraints s @ tc @ tr @ lc @ bc @ br"
    using solver_init_Inr(2)[OF assms(3)] by blast
  have split: "cons = (customer_constraints s @ rs_constraints s @ route_consistency_constraints s)
          @ tc @ tr @ (lc @ bc @ br)"
    using cons by simp
  have len: "length (customer_constraints s @ rs_constraints s @ route_consistency_constraints s)
      = 2 * (length (Customer_Idx gr) + length (RS_Idx gr))"
    by (simp add: customer_constraints_def rs_constraints_def route_consistency_constraints_def
        f(1,2,6))
  show ?thesis
    by (intro exI conjI)
      (rule solver_built_speed[OF assms], rule split, rule len,
       rule built_travel_time_customer[OF assms(1,2) s tc],
       rule built_travel_time_rs[OF assms(1,2) s tr])
qed

theorem time_propagation_constraints_witness:
  "\<exists>gr s vars cons.
     Graph_EVRP_TW_init [ex_depot] [ex_customer] [ex_station] ex_parameters 1 = Inr gr
   \<and> [ex_depot] \<noteq> []
   \<and> EVPR_TW_Solver_init gr 1000 = Inr (s, vars, cons)
   \<and> g_v gr \<noteq> 0
   \<and> (\<exists>pre tc tr post.
           cons = pre @ tc @ tr @ post
         \<and> length pre = 2 * (length (Customer_Idx gr) + length (RS_Idx gr))
         \<and> list_all2 (\<lambda>c arc. c_sense c = Sense_L \<and> well_formed c
                \<and> (\<forall>\<nu>. holds (value_of \<nu>) c = spec_time_customer \<nu> gr 1000 arc)) tc
              (spec_arcs (0 # Customer_Idx gr) (spec_successors gr))
         \<and> list_all2 (\<lambda>c arc. c_sense c = Sense_L \<and> well_formed c
                \<and> (\<forall>\<nu>. holds (value_of \<nu>) c = spec_time_station \<nu> gr 1000 arc)) tr
              (spec_arcs (RS_Idx gr) (spec_successors gr)))"
proof -
  obtain gr s vars cons where
    g: "Graph_EVRP_TW_init [ex_depot] [ex_customer] [ex_station] ex_parameters 1 = Inr gr"
    and e: "EVPR_TW_Solver_init gr 1000 = Inr (s, vars, cons)"
    using ex_solver_built by blast
  have d: "[ex_depot] \<noteq> []" by simp
  from time_propagation_constraints[OF g d e] g d e show ?thesis
    by blast
qed

text \<open>
  Claim C5. The battery constraints generated are, pair by pair, those of the
  specification. They are the last rows of the model: first one for every arc \<open>(i, j)\<close>,
  \<open>i \<noteq> j\<close>, from a customer to a successor, which holds exactly when
  \<open>y_j - y_i + (h * distance(i,j) + Q) * x_i_j \<le> Q\<close>, then one for every such arc from
  the start depot or a station replica, which holds exactly when
  \<open>y_j + h * distance(i,j) * x_i_j \<le> Q\<close>.
\<close>

theorem battery_propagation_constraints:
  assumes "Graph_EVRP_TW_init ds cs rs params R = Inr gr" and "ds \<noteq> []"
    and "EVPR_TW_Solver_init gr l0 = Inr (s, vars, cons)"
  shows "\<exists>pre bc br.
           cons = pre @ bc @ br
         \<and> list_all2 (\<lambda>c arc. c_sense c = Sense_L \<and> well_formed c
                \<and> (\<forall>\<nu>. holds (value_of \<nu>) c = spec_battery_customer \<nu> gr arc)) bc
              (spec_arcs (Customer_Idx gr) (spec_successors gr))
         \<and> list_all2 (\<lambda>c arc. c_sense c = Sense_L \<and> well_formed c
                \<and> (\<forall>\<nu>. holds (value_of \<nu>) c = spec_battery_depot_station \<nu> gr arc)) br
              (spec_arcs (0 # RS_Idx gr) (spec_successors gr))"
proof -
  note s = solver_init_Inr(1)[OF assms(3)]
  obtain tc tr lc bc br where
    bc: "battery_customer_constraints s = Inr bc"
    and br: "battery_rs_constraints s = Inr br"
    and cons: "cons = customer_constraints s @ rs_constraints s
                    @ route_consistency_constraints s @ tc @ tr @ lc @ bc @ br"
    using solver_init_Inr(2)[OF assms(3)] by blast
  have split: "cons = (customer_constraints s @ rs_constraints s @ route_consistency_constraints s
          @ tc @ tr @ lc) @ bc @ br"
    using cons by simp
  show ?thesis
    by (intro exI conjI)
      (rule split, rule built_battery_customer[OF assms(1,2) s bc],
       rule built_battery_rs[OF assms(1,2) s br])
qed

theorem battery_propagation_constraints_witness:
  "\<exists>gr s vars cons.
     Graph_EVRP_TW_init [ex_depot] [ex_customer] [ex_station] ex_parameters 1 = Inr gr
   \<and> [ex_depot] \<noteq> []
   \<and> EVPR_TW_Solver_init gr 1000 = Inr (s, vars, cons)
   \<and> (\<exists>pre bc br.
           cons = pre @ bc @ br
         \<and> list_all2 (\<lambda>c arc. c_sense c = Sense_L \<and> well_formed c
                \<and> (\<forall>\<nu>. holds (value_of \<nu>) c = spec_battery_customer \<nu> gr arc)) bc
              (spec_arcs (Customer_Idx gr) (spec_successors gr))
         \<and> list_all2 (\<lambda>c arc. c_sense c = Sense_L \<and> well_formed c
                \<and> (\<forall>\<nu>. holds (value_of \<nu>) c = spec_battery_depot_station \<nu> gr arc)) br
              (spec_arcs (0 # RS_Idx gr) (spec_successors gr)))"
proof -
  obtain gr s vars cons where
    g: "Graph_EVRP_TW_init [ex_depot] [ex_customer] [ex_station] ex_parameters 1 = Inr gr"
    and e: "EVPR_TW_Solver_init gr 1000 = Inr (s, vars, cons)"
    using ex_solver_built by blast
  have d: "[ex_depot] \<noteq> []" by simp
  from battery_propagation_constraints[OF g d e] g d e show ?thesis
    by blast
qed

section \<open>More than one depot\<close>

text \<open>
  Claim C2, as the code has it. The number of depots is not checked. A moderate instance
  with more than one depot is not rejected: the graph is built with the whole list of
  depots at both ends of the node sequence, the depot indices are 0 and the last index,
  and the constructor of the solver returns with the variables and constraints generated
  on that graph.
\<close>

theorem depot_count_unchecked:
  assumes "1 < length ds"
    and "list_all moderate_node ds" and "list_all moderate_node cs"
    and "list_all moderate_node rs"
    and "moderate_parameters params" and "moderate l0"
  shows "\<exists>gr s vars cons.
           Graph_EVRP_TW_init ds cs rs params R = Inr gr
         \<and> Nodes gr = ds @ cs @ py_repeat rs R @ ds
         \<and> Depot_Idx gr = [0, int (length (Nodes gr)) - 1]
         \<and> EVPR_TW_Solver_init gr l0 = Inr (s, vars, cons)"
proof -
  have d: "ds \<noteq> []" using assms(1) by auto
  obtain gr s vars cons where g: "Graph_EVRP_TW_init ds cs rs params R = Inr gr"
    and e: "EVPR_TW_Solver_init gr l0 = Inr (s, vars, cons)"
    using moderate_solver_init[OF assms(2-6) d] by blast
  show ?thesis
    by (intro exI conjI)
      (rule g, rule Graph_init_fields(1)[OF g], rule Graph_init_fields(2)[OF g], rule e)
qed

theorem depot_count_unchecked_witness:
  "1 < length [ex_depot, ex_depot2]
   \<and> list_all moderate_node [ex_depot, ex_depot2] \<and> list_all moderate_node [ex_customer]
   \<and> list_all moderate_node [ex_station]
   \<and> moderate_parameters ex_parameters \<and> moderate 1000
   \<and> (\<exists>gr s vars cons.
           Graph_EVRP_TW_init [ex_depot, ex_depot2] [ex_customer] [ex_station] ex_parameters 1 = Inr gr
         \<and> Nodes gr = [ex_depot, ex_depot2] @ [ex_customer] @ py_repeat [ex_station] 1
                        @ [ex_depot, ex_depot2]
         \<and> Depot_Idx gr = [0, int (length (Nodes gr)) - 1]
         \<and> EVPR_TW_Solver_init gr 1000 = Inr (s, vars, cons))"
proof -
  have l: "1 < length [ex_depot, ex_depot2]" by simp
  from depot_count_unchecked[OF l ex_moderate(2,3,4,6,7), of 1] l ex_moderate(2,3,4,6,7)
  show ?thesis by (intro conjI)
qed

text \<open>
  The claim as stated asks for a rejection before any constraint is generated. With the
  two depots \<open>D0\<close> and \<open>D1\<close> neither the graph nor the solver raises, and the model holds
  constraints.
\<close>

theorem two_depots_not_rejected:
  "\<not> isl (Graph_EVRP_TW_init [ex_depot, ex_depot2] [ex_customer] [ex_station] ex_parameters 1)
   \<and> \<not> isl (EVPR_TW_Solver_init
         (projr (Graph_EVRP_TW_init [ex_depot, ex_depot2] [ex_customer] [ex_station]
                   ex_parameters 1)) 1000)
   \<and> snd (snd (projr (EVPR_TW_Solver_init
         (projr (Graph_EVRP_TW_init [ex_depot, ex_depot2] [ex_customer] [ex_station]
                   ex_parameters 1)) 1000))) \<noteq> []"
proof -
  have d: "[ex_depot, ex_depot2] \<noteq> []" by simp
  obtain gr s vars cons where g:
    "Graph_EVRP_TW_init [ex_depot, ex_depot2] [ex_customer] [ex_station] ex_parameters 1 = Inr gr"
    and e: "EVPR_TW_Solver_init gr 1000 = Inr (s, vars, cons)"
    using moderate_solver_init[OF ex_moderate(2,3,4,6,7) d] by blast
  note s = solver_init_Inr(1)[OF e]
  obtain tc tr lc bc br where
    cons: "cons = customer_constraints s @ rs_constraints s
                    @ route_consistency_constraints s @ tc @ tr @ lc @ bc @ br"
    using solver_init_Inr(2)[OF e] by blast
  have "Customer_Idx gr = [1]"
    using built_graph_indices(1)[OF g] by (simp add: upto.simps)
  then have "customer_constraints s \<noteq> []"
    by (simp add: customer_constraints_def solver_fields_built(1)[OF g s])
  then show ?thesis
    by (simp add: g e cons)
qed

section \<open>A file without customers\<close>

text \<open>
  The list of customers is empty whenever no line of the file is a customer line, so a
  file without any never gets through the parser.
\<close>

lemma parse_lines_customers:
  "parse_lines lines (depots, customers, stations, params) = Inr (depots', customers', stations', params')
     \<Longrightarrow> list_all (\<lambda>l. \<not> is_customer_line l) lines \<Longrightarrow> customers' = customers"
proof (induction lines "(depots, customers, stations, params)"
    arbitrary: depots customers stations params rule: parse_lines.induct)
  case (1 st)
  then show ?case by simp
next
  case (2 sid ty x y d ws we sv rest depots customers stations params)
  then show ?case
    by (auto simp: is_customer_line_def split: sum.splits if_splits)
next
  case (3 key val rest depots customers stations params)
  then show ?case
    by (auto simp: is_customer_line_def split: option.splits)
next
  case (4 rest st)
  then show ?case
    by (auto simp: is_customer_line_def)
qed

lemma parse_file_needs_customer_line:
  assumes "list_all (\<lambda>l. \<not> is_customer_line l) lines"
  shows "parse_file lines = Inl IndexError \<or> parse_file lines = Inl ValueError"
proof (cases "parse_lines lines ([], [], [], Map.empty)")
  case (Inl e)
  have "parse_lines lines st = Inl e \<Longrightarrow> e = ValueError" for st e
    by (induction lines st rule: parse_lines.induct)
      (auto simp: node_of_fields_def split: sum.splits option.splits if_splits)
  with Inl show ?thesis by (simp add: parse_file_def)
next
  case (Inr st)
  obtain depots customers stations params where st: "st = (depots, customers, stations, params)"
    by (cases st)
  have "customers = []"
    using parse_lines_customers[OF Inr[unfolded st] assms] .
  then show ?thesis
    using Inr st by (simp add: parse_file_def)
qed

text \<open>
  Claim C10, as the code has it. When the loop over the lines ends with an empty list of
  customers, \<open>parse_file\<close> raises IndexError at the comparison of the first customer
  with the first depot instead of returning the depots and stations read. An instance
  without customers is returned all the same in one case, and only in that one: the file
  has a depot and exactly one customer, at the position of the first depot, which the
  cleanup step removes.
\<close>

theorem parse_file_without_customers:
  assumes "parse_lines lines ([], [], [], Map.empty) = Inr (depots, customers, stations, params)"
  shows "(customers = [] \<longrightarrow> parse_file lines = Inl IndexError)
       \<and> ((\<exists>depots' stations' params'. parse_file lines = Inr (depots', [], stations', params'))
            \<longleftrightarrow> depots \<noteq> [] \<and> length customers = 1
                \<and> Position (hd customers) = Position (hd depots))"
proof (cases customers)
  case Nil
  then show ?thesis using assms by (simp add: parse_file_def)
next
  case (Cons c cs)
  show ?thesis
  proof (cases depots)
    case Nil
    then show ?thesis using assms Cons by (simp add: parse_file_def)
  next
    case (Cons d ds)
    then show ?thesis using assms \<open>customers = c # cs\<close> by (auto simp: parse_file_def)
  qed
qed

theorem parse_file_without_customers_witness:
  "parse_lines [Node_line ''D0'' ''d'' (Some 40) (Some 50) (Some 0) (Some 0) (Some 1236) (Some 0),
                Parameter_line ''Q'' (Some 77.75)]
     ([], [], [], Map.empty) = Inr ([ex_depot], [], [], [''Q'' \<mapsto> 77.75])
   \<and> ([] :: node list) = []
   \<and> parse_file [Node_line ''D0'' ''d'' (Some 40) (Some 50) (Some 0) (Some 0) (Some 1236) (Some 0),
                  Parameter_line ''Q'' (Some 77.75)] = Inl IndexError"
proof -
  have p: "parse_lines [Node_line ''D0'' ''d'' (Some 40) (Some 50) (Some 0) (Some 0) (Some 1236) (Some 0),
                Parameter_line ''Q'' (Some 77.75)]
     ([], [], [], Map.empty) = Inr ([ex_depot], [], [], [''Q'' \<mapsto> 77.75])"
    by (simp add: node_of_fields_def ex_depot_def)
  from parse_file_without_customers[OF p] p show ?thesis by simp
qed

text \<open>
  The claim as stated concludes that no instance without customers can be built through
  the parser. A file with the depot \<open>D0\<close> and the one customer \<open>C1\<close> at the same
  position is parsed into an instance whose list of customers is empty.
\<close>

theorem zero_customer_instance_parsed:
  "parse_file [Node_line ''D0'' ''d'' (Some 40) (Some 50) (Some 0) (Some 0) (Some 1236) (Some 0),
               Node_line ''C1'' ''c'' (Some 40) (Some 50) (Some 10) (Some 0) (Some 1236) (Some 90)]
     = Inr ([ex_depot], [], [], Map.empty)"
  by (simp add: parse_file_def node_of_fields_def ex_depot_def)

end
